theory Spec2Isabelle
  imports Main "HOL-Library.Word" "HOL-Library.Code_Target_Nat"
begin

section \<open>Data model (domain/types)\<close>

text \<open>
  A JavaScript string is a sequence of UTF-16 code units; equality, emptiness,
  \<open>slice\<close>, \<open>split\<close> and \<open>trim\<close> all work on code units.
\<close>

type_synonym jsstring = "16 word list"

datatype TaskStatus = Pending | Active | Done | Skipped | Failed

datatype WorkflowStatus = Idle | Running | Finishing | Completed | Aborted

datatype TaskType = Frontend | Backend | General

text \<open>
  Modelled from the spec: the declarations of domain/types (TaskEntry, ProgressData and
  the two status enumerations) are not among the sources; the fields are those the
  functions below read and write.
\<close>

text \<open>
  \<open>retries\<close> is a JavaScript number.  It starts at 0, changes only by \<open>+ 1\<close>, and is
  read back from the progress file by \<open>parseInt\<close> on a run of digits: its values are
  the non-negative integers a double holds, and \<open>Infinity\<close> for a run of digits beyond
  the range of a double.  Every integer up to \<open>2 ^ 53\<close> is a double; above, a double
  with \<open>b\<close> binary digits is a multiple of \<open>2 ^ (b - 53)\<close>, and the result of an
  addition is the exact sum rounded to the nearest double, a tie going to the even
  multiple, and to \<open>Infinity\<close> from \<open>2 ^ 1024\<close> on.
\<close>

datatype jsnum = Num nat | Infinity

fun bitlen :: "nat \<Rightarrow> nat" where
  "bitlen n = (if n = 0 then 0 else Suc (bitlen (n div 2)))"

declare bitlen.simps [simp del]

definition round_double :: "nat \<Rightarrow> jsnum" where
  "round_double n =
     (if n < 2 ^ 53 then Num n
      else let u = 2 ^ (bitlen n - 53);
               q = n div u;
               r = n mod u;
               m = (if 2 * r < u \<or> (2 * r = u \<and> even q) then q else q + 1)
           in if m * u < 2 ^ 1024 then Num (m * u) else Infinity)"

text \<open>\<open>a + b\<close> and \<open>a >= b\<close> on these numbers.\<close>

fun js_add :: "jsnum \<Rightarrow> jsnum \<Rightarrow> jsnum" where
  "js_add (Num a) (Num b) = round_double (a + b)"
| "js_add (Num a) Infinity = Infinity"
| "js_add Infinity b = Infinity"

fun js_ge :: "jsnum \<Rightarrow> jsnum \<Rightarrow> bool" where
  "js_ge (Num a) (Num b) \<longleftrightarrow> b \<le> a"
| "js_ge (Num a) Infinity \<longleftrightarrow> False"
| "js_ge Infinity b \<longleftrightarrow> True"

record TaskEntry =
  task_id :: jsstring
  title :: jsstring
  description :: jsstring
  task_type :: TaskType
  task_status :: TaskStatus
  deps :: "jsstring list"
  summary :: jsstring
  retries :: jsnum

record ProgressData =
  name :: jsstring
  status :: WorkflowStatus
  current :: "jsstring option"
  tasks :: "TaskEntry list"

datatype error =
    TaskNotFound jsstring
  | CyclicDependency "jsstring list"
  | NoWorkflow
  | TasksStillActive "jsstring list"
  | TaskNotActive jsstring TaskStatus
  | CheckpointEmpty jsstring

section \<open>domain/task-store\<close>

text \<open>\<open>buildIndex\<close>: a Map filled in sequence order, so a later task overwrites an
  earlier one with the same id.\<close>

definition buildIndex :: "TaskEntry list \<Rightarrow> (jsstring \<rightharpoonup> TaskEntry)" where
  "buildIndex ts = foldl (\<lambda>m t. m(task_id t \<mapsto> t)) Map.empty ts"

lemma buildIndex_map_of:
  "buildIndex ts = map_of (rev (map (\<lambda>t. (task_id t, t)) ts))"
  unfolding buildIndex_def
  by (induction ts rule: rev_induct) simp_all

lemma buildIndex_SomeD:
  "buildIndex ts i = Some t \<Longrightarrow> t \<in> set ts \<and> task_id t = i"
  by (auto simp: buildIndex_map_of dest!: map_of_SomeD)

lemma buildIndex_None: "buildIndex ts i = None \<longleftrightarrow> i \<notin> task_id ` set ts"
  by (simp add: buildIndex_map_of map_of_eq_None_iff image_image)

subsection \<open>cascadeSkip\<close>

text \<open>The annotation written on a cascaded skip (ten code units, CJK text).\<close>

definition skip_note :: jsstring where
  "skip_note = [0x4F9D, 0x8D56, 0x4EFB, 0x52A1, 0x5931, 0x8D25, 0xFF0C, 0x5DF2, 0x8DF3, 0x8FC7]"

text \<open>\<open>t.deps.some(d => { const dep = idx.get(d); return dep && (failed || skipped) })\<close>\<close>

definition blocked :: "(jsstring \<rightharpoonup> TaskEntry) \<Rightarrow> TaskEntry \<Rightarrow> bool" where
  "blocked idx t =
     list_ex (\<lambda>d. case idx d of None \<Rightarrow> False
                 | Some dep \<Rightarrow> task_status dep = Failed \<or> task_status dep = Skipped) (deps t)"

text \<open>
  One run of the inner \<open>for\<close> loop.  The index was built before the loop and holds the
  task objects of that moment; the loop replaces array slots by new objects, so every
  lookup sees the statuses the pass started with.  The second component is \<open>changed\<close>.
\<close>

fun skip_pass :: "(jsstring \<rightharpoonup> TaskEntry) \<Rightarrow> TaskEntry list \<Rightarrow> bool \<Rightarrow> TaskEntry list \<times> bool" where
  "skip_pass idx [] changed = ([], changed)"
| "skip_pass idx (t # rest) changed =
     (if task_status t \<noteq> Pending then
        (case skip_pass idx rest changed of (r, c) \<Rightarrow> (t # r, c))
      else if blocked idx t then
        (case skip_pass idx rest True of
           (r, c) \<Rightarrow> (t\<lparr>task_status := Skipped, summary := skip_note\<rparr> # r, c))
      else
        (case skip_pass idx rest changed of (r, c) \<Rightarrow> (t # r, c)))"

definition pending_count :: "TaskEntry list \<Rightarrow> nat" where
  "pending_count ts = length (filter (\<lambda>t. task_status t = Pending) ts)"

text \<open>What one pass does to a single task, and the pass as a whole.\<close>

definition skip_step :: "(jsstring \<rightharpoonup> TaskEntry) \<Rightarrow> TaskEntry \<Rightarrow> TaskEntry" where
  "skip_step idx t =
     (if task_status t = Pending \<and> blocked idx t
      then t\<lparr>task_status := Skipped, summary := skip_note\<rparr> else t)"

definition needs_skip :: "(jsstring \<rightharpoonup> TaskEntry) \<Rightarrow> TaskEntry \<Rightarrow> bool" where
  "needs_skip idx t \<longleftrightarrow> task_status t = Pending \<and> blocked idx t"

lemma skip_pass_eq:
  "skip_pass idx ts ch = (map (skip_step idx) ts, ch \<or> list_ex (needs_skip idx) ts)"
  by (induction ts arbitrary: ch) (simp_all add: skip_step_def needs_skip_def)

lemma skip_step_count:
  "pending_count (map (skip_step idx) ts) + length (filter (needs_skip idx) ts) = pending_count ts"
  by (induction ts) (simp_all add: pending_count_def skip_step_def needs_skip_def)

lemma skip_pass_count_less:
  assumes "list_ex (needs_skip idx) ts"
  shows "pending_count (map (skip_step idx) ts) < pending_count ts"
proof -
  from assms obtain t where "t \<in> set ts" "needs_skip idx t"
    by (auto simp: list_ex_iff)
  then have "filter (needs_skip idx) ts \<noteq> []"
    by (auto simp: filter_empty_conv)
  then have "0 < length (filter (needs_skip idx) ts)" by simp
  with skip_step_count [of idx ts] show ?thesis by linarith
qed

text \<open>The \<open>while (changed)\<close> loop; every pass that changes something turns at least one
  pending task into a skipped one, which bounds the number of passes.\<close>

function cascade_loop :: "TaskEntry list \<Rightarrow> TaskEntry list" where
  "cascade_loop result =
     (case skip_pass (buildIndex result) result False of
        (result', changed) \<Rightarrow> if changed then cascade_loop result' else result')"
  by pat_completeness auto
termination
  by (relation "measure pending_count") (simp_all add: skip_pass_eq skip_pass_count_less)

declare cascade_loop.simps [simp del]

text \<open>\<open>tasks.map(t => ({ ...t }))\<close> copies every task object; on values the copy is the
  task itself.\<close>

definition cascadeSkip :: "TaskEntry list \<Rightarrow> TaskEntry list" where
  "cascadeSkip tsk = cascade_loop (map (\<lambda>t. t) tsk)"

subsection \<open>detectCycles\<close>

text \<open>The three collections the closure \<open>dfs\<close> shares: two Sets and a Map.\<close>

record dfs_state =
  visited :: "jsstring set"
  inStack :: "jsstring set"
  parent :: "jsstring \<rightharpoonup> jsstring"

text \<open>
  The \<open>while (cur !== dep)\<close> loop that collects the ids between the current node and
  the repeated one.  A node without a recorded parent makes \<open>cur\<close> undefined, after
  which the loop never ends; that is the result \<open>None\<close>.
\<close>

partial_function (option) walk_back ::
  "(jsstring \<rightharpoonup> jsstring) \<Rightarrow> jsstring \<Rightarrow> jsstring \<Rightarrow> jsstring list \<Rightarrow> jsstring list option" where
  "walk_back par dep cur path =
     (if cur \<noteq> dep then
        (case par cur of None \<Rightarrow> None | Some p \<Rightarrow> walk_back par dep p (path @ [cur]))
      else Some path)"

declare walk_back.simps [code]

text \<open>\<open>visited.add(id); inStack.add(id)\<close> and \<open>inStack.delete(id)\<close>.\<close>

definition enter :: "jsstring \<Rightarrow> dfs_state \<Rightarrow> dfs_state" where
  "enter i s = s\<lparr>visited := insert i (visited s), inStack := insert i (inStack s)\<rparr>"

definition leave :: "jsstring \<Rightarrow> dfs_state \<Rightarrow> dfs_state" where
  "leave i s = s\<lparr>inStack := inStack s - {i}\<rparr>"

lemma visited_enter [simp]: "visited (enter i s) = insert i (visited s)"
  and inStack_enter [simp]: "inStack (enter i s) = insert i (inStack s)"
  and parent_enter [simp]: "parent (enter i s) = parent s"
  and visited_leave [simp]: "visited (leave i s) = visited s"
  and inStack_leave [simp]: "inStack (leave i s) = inStack s - {i}"
  and parent_leave [simp]: "parent (leave i s) = parent s"
  by (simp_all add: enter_def leave_def)

text \<open>
  \<open>dfs\<close> and the \<open>for (const dep of task.deps)\<close> loop inside it, with the shared
  collections passed along.  The index is the one built from the list \<open>tsk\<close> that
  \<open>detectCycles\<close> was given.  The outer option is \<open>None\<close> when the path loop does
  not end; the inner one is the cycle or null.
\<close>

function (domintros)
  dfs :: "TaskEntry list \<Rightarrow> jsstring \<Rightarrow> dfs_state \<Rightarrow> (dfs_state \<times> jsstring list option) option" and
  dfs_deps :: "TaskEntry list \<Rightarrow> jsstring \<Rightarrow> jsstring list \<Rightarrow> dfs_state \<Rightarrow> (dfs_state \<times> jsstring list option) option"
where
  "dfs tsk i s =
     (case buildIndex tsk i of
        None \<Rightarrow> Some (leave i (enter i s), None)
      | Some task \<Rightarrow>
         (case dfs_deps tsk i (deps task) (enter i s) of
            None \<Rightarrow> None
          | Some (s2, Some cycle) \<Rightarrow> Some (s2, Some cycle)
          | Some (s2, None) \<Rightarrow> Some (leave i s2, None)))"
| "dfs_deps tsk i [] s = Some (s, None)"
| "dfs_deps tsk i (dep # rest) s =
     (if dep \<notin> visited s then
        (case dfs tsk dep (s\<lparr>parent := (parent s)(dep \<mapsto> i)\<rparr>) of
           None \<Rightarrow> None
         | Some (s2, Some cycle) \<Rightarrow> Some (s2, Some cycle)
         | Some (s2, None) \<Rightarrow> dfs_deps tsk i rest s2)
      else if dep \<in> inStack s then
        (case walk_back (parent s) dep i [dep] of
           None \<Rightarrow> None
         | Some path \<Rightarrow> Some (s, Some (rev (path @ [dep]))))
      else dfs_deps tsk i rest s)"
  by pat_completeness auto

lemma dfs_visited_mono_dom:
  "dfs_dfs_deps_dom (Inl (tsk, i, s)) \<Longrightarrow> dfs tsk i s = Some (s', r) \<Longrightarrow> visited s \<subseteq> visited s'"
  "dfs_dfs_deps_dom (Inr (tsk, j, ds, s)) \<Longrightarrow> dfs_deps tsk j ds s = Some (s', r) \<Longrightarrow> visited s \<subseteq> visited s'"
proof (induction tsk i s and tsk j ds s arbitrary: s' r and s' r rule: dfs_dfs_deps.pinduct)
  case (1 tsk i s)
  then show ?case
    by (auto simp: dfs.psimps split: option.splits prod.splits) blast+
next
  case (2 tsk i s)
  then show ?case by (simp add: dfs_deps.psimps)
next
  case (3 tsk i dep rest s)
  show ?case
  proof (cases "dep \<notin> visited s")
    case True
    let ?s1 = "s\<lparr>parent := (parent s)(dep \<mapsto> i)\<rparr>"
    from 3(5) True 3(1) obtain s2 r2 where d: "dfs tsk dep ?s1 = Some (s2, r2)"
      by (auto simp: dfs_deps.psimps split: option.splits)
    from 3(2) [OF True d] have m: "visited s \<subseteq> visited s2" by simp
    show ?thesis
    proof (cases r2)
      case None
      with 3(5) True 3(1) d have "dfs_deps tsk i rest s2 = Some (s', r)"
        by (simp add: dfs_deps.psimps)
      from 3(3) [OF True d refl None this] m show ?thesis by blast
    next
      case (Some c)
      with 3(5) True 3(1) d have "s' = s2" by (simp add: dfs_deps.psimps)
      with m show ?thesis by simp
    qed
  next
    case False
    with 3 show ?thesis
      by (auto simp: dfs_deps.psimps split: option.splits if_splits)
  qed
qed

definition all_deps :: "TaskEntry list \<Rightarrow> jsstring set" where
  "all_deps tsk = (\<Union>t \<in> set tsk. set (deps t))"

lemma finite_all_deps [simp]: "finite (all_deps tsk)"
  by (simp add: all_deps_def)

fun dfs_m1 :: "(TaskEntry list \<times> jsstring \<times> dfs_state) + (TaskEntry list \<times> jsstring \<times> jsstring list \<times> dfs_state) \<Rightarrow> nat" where
  "dfs_m1 (Inl (tsk, i, s)) = card (all_deps tsk - insert i (visited s))"
| "dfs_m1 (Inr (tsk, i, ds, s)) = card ((all_deps tsk \<union> set ds) - visited s)"

fun dfs_m2 :: "(TaskEntry list \<times> jsstring \<times> dfs_state) + (TaskEntry list \<times> jsstring \<times> jsstring list \<times> dfs_state) \<Rightarrow> nat" where
  "dfs_m2 (Inl (tsk, i, s)) = Suc 0"
| "dfs_m2 (Inr (tsk, i, ds, s)) = 0"

fun dfs_m3 :: "(TaskEntry list \<times> jsstring \<times> dfs_state) + (TaskEntry list \<times> jsstring \<times> jsstring list \<times> dfs_state) \<Rightarrow> nat" where
  "dfs_m3 (Inl (tsk, i, s)) = 0"
| "dfs_m3 (Inr (tsk, i, ds, s)) = length ds"

lemma deps_in_all_deps: "buildIndex tsk i = Some t \<Longrightarrow> set (deps t) \<subseteq> all_deps tsk"
  by (auto simp: all_deps_def dest: buildIndex_SomeD)

termination dfs
proof (relation "measures [dfs_m1, dfs_m2, dfs_m3]", goal_cases)
  case 1
  then show ?case by simp
next
  case (2 tsk i s task)
  from deps_in_all_deps [OF 2] have "all_deps tsk \<union> set (deps task) = all_deps tsk" by blast
  then show ?case by simp
next
  case (3 tsk i dep rest s)
  have "all_deps tsk - insert dep (visited s) \<subset> (all_deps tsk \<union> set (dep # rest)) - visited s"
    using 3 by auto
  then have "card (all_deps tsk - insert dep (visited s)) < card ((all_deps tsk \<union> set (dep # rest)) - visited s)"
    by (intro psubset_card_mono) simp_all
  then show ?case by simp
next
  case (4 tsk i dep rest s x2 x y)
  then have "visited (s\<lparr>parent := (parent s)(dep \<mapsto> i)\<rparr>) \<subseteq> visited x"
    using dfs_visited_mono_dom(1) by metis
  then have "(all_deps tsk \<union> set rest) - visited x \<subseteq> (all_deps tsk \<union> set (dep # rest)) - visited s"
    by auto
  then have "card ((all_deps tsk \<union> set rest) - visited x) \<le> card ((all_deps tsk \<union> set (dep # rest)) - visited s)"
    by (intro card_mono) simp_all
  then show ?case by auto
next
  case (5 tsk i dep rest s)
  have "(all_deps tsk \<union> set rest) - visited s \<subseteq> (all_deps tsk \<union> set (dep # rest)) - visited s"
    by auto
  then have "card ((all_deps tsk \<union> set rest) - visited s) \<le> card ((all_deps tsk \<union> set (dep # rest)) - visited s)"
    by (intro card_mono) simp_all
  then show ?case by auto
qed


text \<open>The outer loop over the tasks, and \<open>detectCycles\<close> itself.\<close>

fun detect_loop :: "TaskEntry list \<Rightarrow> TaskEntry list \<Rightarrow> dfs_state \<Rightarrow> jsstring list option option" where
  "detect_loop tsk [] s = Some None"
| "detect_loop tsk (t # rest) s =
     (if task_id t \<notin> visited s then
        (case dfs tsk (task_id t) s of
           None \<Rightarrow> None
         | Some (s', Some cycle) \<Rightarrow> Some (Some cycle)
         | Some (s', None) \<Rightarrow> detect_loop tsk rest s')
      else detect_loop tsk rest s)"

definition detectCycles :: "TaskEntry list \<Rightarrow> jsstring list option option" where
  "detectCycles tsk = detect_loop tsk tsk \<lparr>visited = {}, inStack = {}, parent = Map.empty\<rparr>"

subsection \<open>findNextTask, findParallelTasks, isAllDone\<close>

text \<open>\<open>t.deps.every(d => idx.get(d)?.status === 'done')\<close>\<close>

definition deps_done :: "(jsstring \<rightharpoonup> TaskEntry) \<Rightarrow> TaskEntry \<Rightarrow> bool" where
  "deps_done idx t =
     list_all (\<lambda>d. case idx d of None \<Rightarrow> False | Some dep \<Rightarrow> task_status dep = Done) (deps t)"

fun select_next :: "(jsstring \<rightharpoonup> TaskEntry) \<Rightarrow> TaskEntry list \<Rightarrow> TaskEntry option" where
  "select_next idx [] = None"
| "select_next idx (t # rest) =
     (if task_status t \<noteq> Pending then select_next idx rest
      else if deps_done idx t then Some t
      else select_next idx rest)"

definition findNextTask :: "TaskEntry list \<Rightarrow> (error + TaskEntry option) option" where
  "findNextTask tsk =
     (case detectCycles (filter (\<lambda>t. task_status t = Pending) tsk) of
        None \<Rightarrow> None
      | Some (Some cycle) \<Rightarrow> Some (Inl (CyclicDependency cycle))
      | Some None \<Rightarrow> Some (Inr (select_next (buildIndex tsk) tsk)))"

text \<open>\<open>findParallelTasks\<close> looks a dependency up with \<open>tasks.find\<close> (first match); its call
  of \<open>cascadeSkip\<close> discards the result.\<close>

definition findParallelTasks :: "TaskEntry list \<Rightarrow> (error + TaskEntry list) option" where
  "findParallelTasks tsk =
     (case detectCycles (filter (\<lambda>t. task_status t = Pending) tsk) of
        None \<Rightarrow> None
      | Some (Some cycle) \<Rightarrow> Some (Inl (CyclicDependency cycle))
      | Some None \<Rightarrow>
          (let unused = cascadeSkip tsk in
           Some (Inr (filter (\<lambda>t. task_status t = Pending \<and>
                      list_all (\<lambda>d. case find (\<lambda>x. task_id x = d) tsk of
                                       None \<Rightarrow> False
                                     | Some dep \<Rightarrow> task_status dep = Done) (deps t)) tsk))))"

definition isAllDone :: "TaskEntry list \<Rightarrow> bool" where
  "isAllDone tsk =
     list_all (\<lambda>t. task_status t = Done \<or> task_status t = Skipped \<or> task_status t = Failed) tsk"

subsection \<open>completeTask, failTask, resumeProgress\<close>

definition completeTask :: "ProgressData \<Rightarrow> jsstring \<Rightarrow> jsstring \<Rightarrow> error + ProgressData" where
  "completeTask data i summ =
     (if buildIndex (tasks data) i = None then Inl (TaskNotFound i)
      else Inr (data\<lparr>current := None,
                     tasks := map (\<lambda>t. if task_id t = i
                                        then t\<lparr>task_status := Done, summary := summ\<rparr> else t)
                                  (tasks data)\<rparr>))"

datatype fail_result = Retry | Skip

definition failTask :: "ProgressData \<Rightarrow> jsstring \<Rightarrow> error + (fail_result \<times> ProgressData)" where
  "failTask data i =
     (case buildIndex (tasks data) i of
        None \<Rightarrow> Inl (TaskNotFound i)
      | Some old \<Rightarrow>
          (let r = js_add (retries old) (Num 1) in
           if js_ge r (Num 3) then
             Inr (Skip, data\<lparr>current := None,
                             tasks := map (\<lambda>t. if task_id t = i
                                                then t\<lparr>retries := r, task_status := Failed\<rparr> else t)
                                          (tasks data)\<rparr>)
           else
             Inr (Retry, data\<lparr>current := None,
                              tasks := map (\<lambda>t. if task_id t = i
                                                 then t\<lparr>retries := r, task_status := Pending\<rparr> else t)
                                           (tasks data)\<rparr>)))"

text \<open>
  The \<open>map\<close> callback of \<open>resumeProgress\<close> with its captured variable \<open>firstId\<close>.
  \<open>if (!firstId)\<close> is a truthiness test: it holds for null and for the empty string.
\<close>

definition falsy :: "jsstring option \<Rightarrow> bool" where
  "falsy v \<longleftrightarrow> v = None \<or> v = Some []"

fun reset_active :: "TaskEntry list \<Rightarrow> jsstring option \<Rightarrow> TaskEntry list \<times> jsstring option" where
  "reset_active [] firstId = ([], firstId)"
| "reset_active (t # rest) firstId =
     (if task_status t = Active then
        (case reset_active rest (if falsy firstId then Some (task_id t) else firstId) of
           (r, f) \<Rightarrow> (t\<lparr>task_status := Pending\<rparr> # r, f))
      else
        (case reset_active rest firstId of (r, f) \<Rightarrow> (t # r, f)))"

definition resumeProgress :: "ProgressData \<Rightarrow> ProgressData \<times> jsstring option" where
  "resumeProgress data =
     (if \<not> list_ex (\<lambda>t. task_status t = Active) (tasks data) then
        (data, if status data = Running then current data else None)
      else
        (case reset_active (tasks data) None of
           (ts, firstId) \<Rightarrow> (data\<lparr>current := None, status := Running, tasks := ts\<rparr>, firstId)))"

section \<open>application/workflow-service\<close>

text \<open>
  The persistence port, reduced to what the operations below do to the aggregate:
  the stored progress file, the sequence of \<open>saveProgress\<close> calls made so far, the
  advisory lock and the lifecycle hooks fired.  Storage is taken to succeed.  The
  texts the operations hand back (messages, the context assembled for a task) and
  the context and summary files are left out; a result carries the data the message
  is built from.
\<close>

datatype hook = OnTaskStart | OnTaskComplete | OnWorkflowFinish

record repository =
  progress :: "ProgressData option"
  save_log :: "ProgressData list"
  locked :: bool
  hook_log :: "(hook \<times> jsstring \<times> jsstring) list"

definition saveProgress :: "ProgressData \<Rightarrow> repository \<Rightarrow> repository" where
  "saveProgress data r = r\<lparr>progress := Some data, save_log := save_log r @ [data]\<rparr>"

definition lock :: "repository \<Rightarrow> repository" where
  "lock r = r\<lparr>locked := True\<rparr>"

definition unlock :: "repository \<Rightarrow> repository" where
  "unlock r = r\<lparr>locked := False\<rparr>"

definition runLifecycleHook :: "hook \<Rightarrow> jsstring \<Rightarrow> jsstring \<Rightarrow> repository \<Rightarrow> repository" where
  "runLifecycleHook h i ttl r = r\<lparr>hook_log := hook_log r @ [(h, i, ttl)]\<rparr>"

subsection \<open>next and nextBatch\<close>

text \<open>The body of the \<open>try\<close> block of \<open>next\<close>; \<open>next_op\<close> wraps it in lock and unlock.\<close>

definition next_body :: "repository \<Rightarrow> (repository \<times> (error + TaskEntry option)) option" where
  "next_body r =
     (case progress r of
        None \<Rightarrow> Some (r, Inl NoWorkflow)
      | Some data \<Rightarrow>
          if isAllDone (tasks data) then Some (r, Inr None)
          else
            (let active = filter (\<lambda>t. task_status t = Active) (tasks data) in
             if active \<noteq> [] then Some (r, Inl (TasksStillActive (map task_id active)))
             else
               (let cascaded = cascadeSkip (tasks data) in
                case findNextTask cascaded of
                  None \<Rightarrow> None
                | Some (Inl e) \<Rightarrow> Some (r, Inl e)
                | Some (Inr None) \<Rightarrow> Some (saveProgress (data\<lparr>tasks := cascaded\<rparr>) r, Inr None)
                | Some (Inr (Some task)) \<Rightarrow>
                    (let activated = map (\<lambda>t. if task_id t = task_id task
                                               then t\<lparr>task_status := Active\<rparr> else t) cascaded;
                         r1 = saveProgress (data\<lparr>current := Some (task_id task),
                                                  tasks := activated\<rparr>) r;
                         r2 = runLifecycleHook OnTaskStart (task_id task) (title task) r1
                     in Some (r2, Inr (Some task))))))"

definition next_op :: "repository \<Rightarrow> (repository \<times> (error + TaskEntry option)) option" where
  "next_op r = (case next_body (lock r) of None \<Rightarrow> None | Some (r', res) \<Rightarrow> Some (unlock r', res))"

definition nextBatch_body :: "repository \<Rightarrow> (repository \<times> (error + TaskEntry list)) option" where
  "nextBatch_body r =
     (case progress r of
        None \<Rightarrow> Some (r, Inl NoWorkflow)
      | Some data \<Rightarrow>
          if isAllDone (tasks data) then Some (r, Inr [])
          else
            (let active = filter (\<lambda>t. task_status t = Active) (tasks data) in
             if active \<noteq> [] then Some (r, Inl (TasksStillActive (map task_id active)))
             else
               (let cascaded = cascadeSkip (tasks data) in
                case findParallelTasks cascaded of
                  None \<Rightarrow> None
                | Some (Inl e) \<Rightarrow> Some (r, Inl e)
                | Some (Inr []) \<Rightarrow> Some (saveProgress (data\<lparr>tasks := cascaded\<rparr>) r, Inr [])
                | Some (Inr (t0 # others)) \<Rightarrow>
                    (let activeIds = set (map task_id (t0 # others));
                         activated = map (\<lambda>t. if task_id t \<in> activeIds
                                               then t\<lparr>task_status := Active\<rparr> else t) cascaded;
                         r1 = saveProgress (data\<lparr>current := Some (task_id t0),
                                                  tasks := activated\<rparr>) r;
                         r2 = foldl (\<lambda>q t. runLifecycleHook OnTaskStart (task_id t) (title t) q)
                                    r1 (t0 # others)
                     in Some (r2, Inr (t0 # others))))))"

definition nextBatch_op :: "repository \<Rightarrow> (repository \<times> (error + TaskEntry list)) option" where
  "nextBatch_op r =
     (case nextBatch_body (lock r) of None \<Rightarrow> None | Some (r', res) \<Rightarrow> Some (unlock r', res))"

subsection \<open>checkpoint\<close>

text \<open>The sentinel \<open>'FAILED'\<close>, the line feed, and the code units \<open>String.prototype.trim\<close>
  removes (WhiteSpace and LineTerminator of the language standard).\<close>

definition FAILED :: jsstring where
  "FAILED = [0x46, 0x41, 0x49, 0x4C, 0x45, 0x44]"

definition is_ws :: "16 word \<Rightarrow> bool" where
  "is_ws c \<longleftrightarrow>
     c \<in> {0x9, 0xA, 0xB, 0xC, 0xD, 0x20, 0xA0, 0x1680, 0x2028, 0x2029, 0x202F, 0x205F,
          0x3000, 0xFEFF} \<or> (0x2000 \<le> c \<and> c \<le> 0x200A)"

definition trim :: "jsstring \<Rightarrow> jsstring" where
  "trim s = rev (dropWhile is_ws (rev (dropWhile is_ws s)))"

text \<open>\<open>detail.split('\n')[0].slice(0, 80)\<close>\<close>

definition summaryLine :: "jsstring \<Rightarrow> jsstring" where
  "summaryLine detail = take 80 (takeWhile (\<lambda>c. c \<noteq> 0xA) detail)"

text \<open>
  What the returned message reports: a failure that will be retried (with the attempt
  number), a failure that exhausted the retries, or a completion with the number of
  done tasks, the number of tasks, the commit error if any, and whether all tasks
  are finished.  The answer of the source-control commit is an input.  The two
  helper calls on the failure path (appendFailureContext, detectFailurePattern) are
  not among the sources; they concern the context files and the warning appended to
  the message, and are left out together with them.
\<close>

datatype checkpoint_msg =
    FailedWillRetry jsnum
  | FailedSkipped
  | Completed nat nat "jsstring option" bool

definition checkpoint_body ::
  "jsstring \<Rightarrow> jsstring \<Rightarrow> jsstring option \<Rightarrow> repository \<Rightarrow> repository \<times> (error + checkpoint_msg)" where
  "checkpoint_body i detail commitErr r =
     (case progress r of
        None \<Rightarrow> (r, Inl NoWorkflow)
      | Some data \<Rightarrow>
         (case find (\<lambda>t. task_id t = i) (tasks data) of
            None \<Rightarrow> (r, Inl (TaskNotFound i))
          | Some task \<Rightarrow>
              if task_status task \<noteq> Active then (r, Inl (TaskNotActive i (task_status task)))
              else if detail = FAILED then
                (case failTask data i of
                   Inl e \<Rightarrow> (r, Inl e)
                 | Inr (result, newData) \<Rightarrow>
                     (saveProgress newData r,
                      Inr (case result of Retry \<Rightarrow> FailedWillRetry (js_add (retries task) (Num 1))
                                        | Skip \<Rightarrow> FailedSkipped)))
              else if trim detail = [] then (r, Inl (CheckpointEmpty i))
              else
                (case completeTask data i (summaryLine detail) of
                   Inl e \<Rightarrow> (r, Inl e)
                 | Inr newData \<Rightarrow>
                     (let r1 = saveProgress newData r;
                          r2 = runLifecycleHook OnTaskComplete i (title task) r1;
                          doneCount = length (filter (\<lambda>t. task_status t = Done) (tasks newData))
                      in (r2, Inr (Completed doneCount (length (tasks newData)) commitErr
                                     (isAllDone (tasks newData))))))))"

definition checkpoint :: "jsstring \<Rightarrow> jsstring \<Rightarrow> jsstring option \<Rightarrow> repository \<Rightarrow> repository \<times> (error + checkpoint_msg)" where
  "checkpoint i detail commitErr r =
     (case checkpoint_body i detail commitErr (lock r) of (r', res) \<Rightarrow> (unlock r', res))"

section \<open>The transition functions on objects and references\<close>

text \<open>
  The functions of domain/task-store receive references to objects, and whether they
  leave their argument alone is a statement about the store.  Here the store is a list
  of objects, a reference is a position in it, and a new object goes to the end.  A
  task object holds the fields of a task (its \<open>deps\<close> array is never written by any
  function here and is kept as a value); an array object holds the references of its
  elements; a progress object holds name, status, current and the reference of its
  task array.  A result \<open>None\<close> stands for a reference that does not lead to an object
  of the expected kind.
\<close>

type_synonym addr = nat

datatype obj =
    TaskObj TaskEntry
  | ArrObj "addr list"
  | ProgObj jsstring WorkflowStatus "jsstring option" addr

type_synonym heap = "obj list"

definition alloc :: "obj \<Rightarrow> heap \<Rightarrow> addr \<times> heap" where
  "alloc ob h = (length h, h @ [ob])"

definition get_task :: "heap \<Rightarrow> addr \<Rightarrow> TaskEntry option" where
  "get_task h a = (if a < length h then (case h ! a of TaskObj t \<Rightarrow> Some t | _ \<Rightarrow> None) else None)"

definition get_arr :: "heap \<Rightarrow> addr \<Rightarrow> addr list option" where
  "get_arr h a = (if a < length h then (case h ! a of ArrObj rs \<Rightarrow> Some rs | _ \<Rightarrow> None) else None)"

definition get_prog :: "heap \<Rightarrow> addr \<Rightarrow> (jsstring \<times> WorkflowStatus \<times> jsstring option \<times> addr) option" where
  "get_prog h a =
     (if a < length h
      then (case h ! a of ProgObj nm st cur arr \<Rightarrow> Some (nm, st, cur, arr) | _ \<Rightarrow> None)
      else None)"

text \<open>The values a reference stands for.\<close>

fun read_tasks :: "heap \<Rightarrow> addr list \<Rightarrow> TaskEntry list option" where
  "read_tasks h [] = Some []"
| "read_tasks h (a # as) =
     (case get_task h a of
        None \<Rightarrow> None
      | Some t \<Rightarrow> (case read_tasks h as of None \<Rightarrow> None | Some ts \<Rightarrow> Some (t # ts)))"

definition read_array :: "heap \<Rightarrow> addr \<Rightarrow> TaskEntry list option" where
  "read_array h a = (case get_arr h a of None \<Rightarrow> None | Some rs \<Rightarrow> read_tasks h rs)"

definition read_progress :: "heap \<Rightarrow> addr \<Rightarrow> ProgressData option" where
  "read_progress h p =
     (case get_prog h p of
        None \<Rightarrow> None
      | Some (nm, st, cur, arr) \<Rightarrow>
          (case read_array h arr of
             None \<Rightarrow> None
           | Some ts \<Rightarrow> Some \<lparr>name = nm, status = st, current = cur, tasks = ts\<rparr>))"

text \<open>
  \<open>tasks.map(callback)\<close> for a callback that either hands back the reference it was
  given (\<open>None\<close>) or builds a new object with an object literal (\<open>Some\<close>).
\<close>

fun map_refs :: "(TaskEntry \<Rightarrow> TaskEntry option) \<Rightarrow> addr list \<Rightarrow> heap \<Rightarrow> (addr list \<times> heap) option" where
  "map_refs f [] h = Some ([], h)"
| "map_refs f (a # as) h =
     (case get_task h a of
        None \<Rightarrow> None
      | Some t \<Rightarrow>
         (case f t of
            None \<Rightarrow>
              (case map_refs f as h of None \<Rightarrow> None | Some (bs, h') \<Rightarrow> Some (a # bs, h'))
          | Some t' \<Rightarrow>
              (case alloc (TaskObj t') h of
                 (a', h1) \<Rightarrow>
                   (case map_refs f as h1 of None \<Rightarrow> None | Some (bs, h') \<Rightarrow> Some (a' # bs, h')))))"

text \<open>\<open>completeTask\<close>, \<open>failTask\<close> and \<open>resumeProgress\<close> on references.  The index is
  consulted for the presence of the id and for the retries of the task it holds.\<close>

definition completeTask_h :: "heap \<Rightarrow> addr \<Rightarrow> jsstring \<Rightarrow> jsstring \<Rightarrow> (heap \<times> (error + addr)) option" where
  "completeTask_h h p i summ =
     (case get_prog h p of
        None \<Rightarrow> None
      | Some (nm, st, cur, arr) \<Rightarrow>
         (case get_arr h arr of
            None \<Rightarrow> None
          | Some refs \<Rightarrow>
             (case read_tasks h refs of
                None \<Rightarrow> None
              | Some ts \<Rightarrow>
                  if buildIndex ts i = None then Some (h, Inl (TaskNotFound i))
                  else
                    (case map_refs (\<lambda>t. if task_id t = i
                                         then Some (t\<lparr>task_status := Done, summary := summ\<rparr>)
                                         else None) refs h of
                       None \<Rightarrow> None
                     | Some (refs', h1) \<Rightarrow>
                         (case alloc (ArrObj refs') h1 of
                            (arr', h2) \<Rightarrow>
                              (case alloc (ProgObj nm st None arr') h2 of
                                 (p', h3) \<Rightarrow> Some (h3, Inr p')))))))"

definition failTask_h :: "heap \<Rightarrow> addr \<Rightarrow> jsstring \<Rightarrow> (heap \<times> (error + fail_result \<times> addr)) option" where
  "failTask_h h p i =
     (case get_prog h p of
        None \<Rightarrow> None
      | Some (nm, st, cur, arr) \<Rightarrow>
         (case get_arr h arr of
            None \<Rightarrow> None
          | Some refs \<Rightarrow>
             (case read_tasks h refs of
                None \<Rightarrow> None
              | Some ts \<Rightarrow>
                 (case buildIndex ts i of
                    None \<Rightarrow> Some (h, Inl (TaskNotFound i))
                  | Some old \<Rightarrow>
                     (let r = js_add (retries old) (Num 1);
                          st' = (if js_ge r (Num 3) then Failed else Pending) in
                      case map_refs (\<lambda>t. if task_id t = i
                                          then Some (t\<lparr>retries := r, task_status := st'\<rparr>)
                                          else None) refs h of
                        None \<Rightarrow> None
                      | Some (refs', h1) \<Rightarrow>
                          (case alloc (ArrObj refs') h1 of
                             (arr', h2) \<Rightarrow>
                               (case alloc (ProgObj nm st None arr') h2 of
                                  (p', h3) \<Rightarrow>
                                    Some (h3, Inr (if js_ge r (Num 3) then Skip else Retry, p')))))))))"

fun reset_refs :: "addr list \<Rightarrow> jsstring option \<Rightarrow> heap \<Rightarrow> (addr list \<times> jsstring option \<times> heap) option" where
  "reset_refs [] firstId h = Some ([], firstId, h)"
| "reset_refs (a # as) firstId h =
     (case get_task h a of
        None \<Rightarrow> None
      | Some t \<Rightarrow>
          if task_status t = Active then
            (case alloc (TaskObj (t\<lparr>task_status := Pending\<rparr>)) h of
               (a', h1) \<Rightarrow>
                 (case reset_refs as (if falsy firstId then Some (task_id t) else firstId) h1 of
                    None \<Rightarrow> None
                  | Some (bs, f, h') \<Rightarrow> Some (a' # bs, f, h')))
          else
            (case reset_refs as firstId h of
               None \<Rightarrow> None
             | Some (bs, f, h') \<Rightarrow> Some (a # bs, f, h')))"

definition resumeProgress_h :: "heap \<Rightarrow> addr \<Rightarrow> (heap \<times> addr \<times> jsstring option) option" where
  "resumeProgress_h h p =
     (case get_prog h p of
        None \<Rightarrow> None
      | Some (nm, st, cur, arr) \<Rightarrow>
         (case get_arr h arr of
            None \<Rightarrow> None
          | Some refs \<Rightarrow>
             (case read_tasks h refs of
                None \<Rightarrow> None
              | Some ts \<Rightarrow>
                  if \<not> list_ex (\<lambda>t. task_status t = Active) ts then
                    Some (h, p, if st = Running then cur else None)
                  else
                    (case reset_refs refs None h of
                       None \<Rightarrow> None
                     | Some (refs', firstId, h1) \<Rightarrow>
                         (case alloc (ArrObj refs') h1 of
                            (arr', h2) \<Rightarrow>
                              (case alloc (ProgObj nm Running None arr') h2 of
                                 (p', h3) \<Rightarrow> Some (h3, p', firstId)))))))"

subsection \<open>cascadeSkip on references\<close>

text \<open>\<open>buildIndex\<close> as the code has it: a Map from id to object reference.\<close>

fun buildIndex_h :: "heap \<Rightarrow> addr list \<Rightarrow> (jsstring \<rightharpoonup> addr) \<Rightarrow> (jsstring \<rightharpoonup> addr) option" where
  "buildIndex_h h [] m = Some m"
| "buildIndex_h h (a # as) m =
     (case get_task h a of None \<Rightarrow> None | Some t \<Rightarrow> buildIndex_h h as (m(task_id t \<mapsto> a)))"

text \<open>The \<open>some\<close> callback: the status of a dependency is read through the reference
  the index holds, at the moment of the test.\<close>

fun blocked_h :: "heap \<Rightarrow> (jsstring \<rightharpoonup> addr) \<Rightarrow> jsstring list \<Rightarrow> bool option" where
  "blocked_h h idx [] = Some False"
| "blocked_h h idx (d # ds) =
     (case idx d of
        None \<Rightarrow> blocked_h h idx ds
      | Some r \<Rightarrow>
         (case get_task h r of
            None \<Rightarrow> None
          | Some dep \<Rightarrow>
              if task_status dep = Failed \<or> task_status dep = Skipped then Some True
              else blocked_h h idx ds))"

definition arr_len :: "heap \<Rightarrow> addr \<Rightarrow> nat" where
  "arr_len h a = (case get_arr h a of None \<Rightarrow> 0 | Some rs \<Rightarrow> length rs)"

lemma get_arr_write:
  "res < length h \<Longrightarrow> get_arr (h[res := ArrObj rs]) res = Some rs"
  by (simp add: get_arr_def)

lemma arr_len_write:
  assumes "get_arr h res = Some refs"
  shows "arr_len ((h @ [ob])[res := ArrObj (refs[i := a])]) res = length refs"
proof -
  from assms have "res < length h" by (auto simp: get_arr_def split: if_splits)
  then have "res < length (h @ [ob])" by simp
  from get_arr_write [OF this] show ?thesis by (simp add: arr_len_def)
qed

text \<open>
  The \<open>for\<close> loop from index \<open>i\<close> on.  \<open>result[i] = { ...t, status, summary }\<close>
  builds a new task object and writes its reference into slot \<open>i\<close> of the result
  array, the only write to an object that already exists.
\<close>

function pass_h :: "(jsstring \<rightharpoonup> addr) \<Rightarrow> addr \<Rightarrow> nat \<Rightarrow> heap \<Rightarrow> bool \<Rightarrow> (heap \<times> bool) option" where
  "pass_h idx res i h changed =
     (case get_arr h res of
        None \<Rightarrow> None
      | Some refs \<Rightarrow>
          if i < length refs then
            (case get_task h (refs ! i) of
               None \<Rightarrow> None
             | Some t \<Rightarrow>
                 if task_status t \<noteq> Pending then pass_h idx res (i + 1) h changed
                 else
                   (case blocked_h h idx (deps t) of
                      None \<Rightarrow> None
                    | Some b \<Rightarrow>
                        if b then
                          (case alloc (TaskObj (t\<lparr>task_status := Skipped, summary := skip_note\<rparr>)) h of
                             (a', h1) \<Rightarrow>
                               pass_h idx res (i + 1) (h1[res := ArrObj (refs[i := a'])]) True)
                        else pass_h idx res (i + 1) h changed))
          else Some (h, changed))"
  by pat_completeness auto
termination
proof (relation "measure (\<lambda>(idx, res, i, h, changed). arr_len h res - i)", goal_cases)
  case 1
  then show ?case by simp
next
  case 2
  then show ?case by (simp add: arr_len_def)
next
  case 3
  then show ?case
    by (simp add: alloc_def arr_len_write) (simp add: arr_len_def)
next
  case 4
  then show ?case by (simp add: arr_len_def)
qed

declare pass_h.simps [simp del]

text \<open>The \<open>while (changed)\<close> loop and \<open>cascadeSkip\<close>: copy every task, put the copies
  in a new array, run the passes on that array, return it.\<close>

partial_function (option) loop_h :: "addr \<Rightarrow> heap \<Rightarrow> heap option" where
  "loop_h res h =
     (case get_arr h res of
        None \<Rightarrow> None
      | Some refs \<Rightarrow>
         (case buildIndex_h h refs Map.empty of
            None \<Rightarrow> None
          | Some idx \<Rightarrow>
             (case pass_h idx res 0 h False of
                None \<Rightarrow> None
              | Some (h', changed) \<Rightarrow> if changed then loop_h res h' else Some h')))"

declare loop_h.simps [code]

definition cascadeSkip_h :: "heap \<Rightarrow> addr \<Rightarrow> (heap \<times> addr) option" where
  "cascadeSkip_h h arr =
     (case get_arr h arr of
        None \<Rightarrow> None
      | Some refs \<Rightarrow>
         (case map_refs (\<lambda>t. Some t) refs h of
            None \<Rightarrow> None
          | Some (refs', h1) \<Rightarrow>
              (case alloc (ArrObj refs') h1 of
                 (res, h2) \<Rightarrow>
                   (case loop_h res h2 of None \<Rightarrow> None | Some h3 \<Rightarrow> Some (h3, res)))))"

section \<open>Properties\<close>

subsection \<open>The index\<close>

lemma buildIndex_snoc: "buildIndex (ts @ [t]) = (buildIndex ts)(task_id t \<mapsto> t)"
  by (simp add: buildIndex_def)

lemma buildIndex_Nil [simp]: "buildIndex [] = Map.empty"
  by (simp add: buildIndex_def)

lemma buildIndex_map:
  assumes "\<And>t. task_id (f t) = task_id t"
  shows "buildIndex (map f ts) i = map_option f (buildIndex ts i)"
  by (induction ts rule: rev_induct) (simp_all add: buildIndex_snoc assms)

subsection \<open>The cascade loop stops at a sequence no pass changes\<close>

lemma skip_step_id:
  assumes "\<not> list_ex (needs_skip idx) ts"
  shows "map (skip_step idx) ts = ts"
  using assms by (auto simp: list_ex_iff skip_step_def needs_skip_def intro!: map_idI)

lemma cascade_loop_unfold:
  "cascade_loop ts =
     (if list_ex (needs_skip (buildIndex ts)) ts
      then cascade_loop (map (skip_step (buildIndex ts)) ts) else ts)"
  by (subst cascade_loop.simps) (simp add: skip_pass_eq skip_step_id)

lemma cascade_loop_fixed:
  "\<not> list_ex (needs_skip (buildIndex (cascade_loop ts))) (cascade_loop ts)"
proof (induction ts rule: cascade_loop.induct)
  case (1 result)
  show ?case
  proof (cases "list_ex (needs_skip (buildIndex result)) result")
    case True
    have "\<not> list_ex (needs_skip (buildIndex (cascade_loop (map (skip_step (buildIndex result)) result))))
              (cascade_loop (map (skip_step (buildIndex result)) result))"
      using True by (intro 1) (simp_all add: skip_pass_eq)
    with True show ?thesis by (subst (1 2) cascade_loop_unfold) simp
  next
    case False
    then show ?thesis by (subst (1 2) cascade_loop_unfold) simp
  qed
qed

lemma cascade_loop_stable:
  "\<not> list_ex (needs_skip (buildIndex ts)) ts \<Longrightarrow> cascade_loop ts = ts"
  by (subst cascade_loop_unfold) simp

text \<open>
  Claim C5.  For every task sequence, applying \<open>cascadeSkip\<close> to its own output gives
  that output again.
\<close>

theorem cascadeSkip_idempotent: "cascadeSkip (cascadeSkip tsk) = cascadeSkip tsk"
  unfolding cascadeSkip_def
  by (simp add: cascade_loop_stable cascade_loop_fixed)

subsection \<open>An empty task list\<close>

text \<open>
  Claim C10.  \<open>isAllDone\<close> of the empty sequence is true; so \<open>next\<close> and \<open>nextBatch\<close>
  on a workflow without tasks return null and the empty list at the first test: the
  stored progress, the record of saves and the record of hooks are as before (no
  task is activated, nothing is saved), and the only trace is the released lock.
\<close>

theorem empty_workflow_returns_at_once:
  assumes "progress r = Some data" and "tasks data = []"
  shows "isAllDone [] \<and>
         next_op r = Some (r\<lparr>locked := False\<rparr>, Inr None) \<and>
         nextBatch_op r = Some (r\<lparr>locked := False\<rparr>, Inr [])"
  using assms
  by (simp add: isAllDone_def next_op_def next_body_def nextBatch_op_def nextBatch_body_def
      lock_def unlock_def)

theorem empty_workflow_returns_at_once_witness:
  "progress \<lparr>progress = Some \<lparr>name = [0x77], status = Running, current = None, tasks = []\<rparr>,
             save_log = [], locked = False, hook_log = []\<rparr>
     = Some \<lparr>name = [0x77], status = Running, current = None, tasks = []\<rparr> \<and>
   tasks \<lparr>name = [0x77], status = Running, current = None, tasks = []\<rparr> = [] \<and>
   isAllDone [] \<and>
   next_op \<lparr>progress = Some \<lparr>name = [0x77], status = Running, current = None, tasks = []\<rparr>,
             save_log = [], locked = False, hook_log = []\<rparr>
     = Some (\<lparr>progress = Some \<lparr>name = [0x77], status = Running, current = None, tasks = []\<rparr>,
             save_log = [], locked = False, hook_log = []\<rparr>, Inr None) \<and>
   nextBatch_op \<lparr>progress = Some \<lparr>name = [0x77], status = Running, current = None, tasks = []\<rparr>,
             save_log = [], locked = False, hook_log = []\<rparr>
     = Some (\<lparr>progress = Some \<lparr>name = [0x77], status = Running, current = None, tasks = []\<rparr>,
             save_log = [], locked = False, hook_log = []\<rparr>, Inr [])"
  using empty_workflow_returns_at_once
    [of "\<lparr>progress = Some \<lparr>name = [0x77], status = Running, current = None, tasks = []\<rparr>,
             save_log = [], locked = False, hook_log = []\<rparr>"
        "\<lparr>name = [0x77], status = Running, current = None, tasks = []\<rparr>"]
  by simp

subsection \<open>Counting in JavaScript numbers\<close>

lemma bitlen_bounds: "2 ^ k \<le> n \<Longrightarrow> n < 2 ^ Suc k \<Longrightarrow> bitlen n = Suc k"
proof (induction k arbitrary: n)
  case 0
  then have "n = 1" by simp
  then show ?case by (simp add: bitlen.simps)
next
  case (Suc k)
  from Suc.prems have "2 ^ k \<le> n div 2" "n div 2 < 2 ^ Suc k" by simp_all
  then have "bitlen (n div 2) = Suc k" by (rule Suc.IH)
  moreover from Suc.prems have "n \<noteq> 0" by auto
  ultimately show ?case by (subst bitlen.simps) simp
qed

text \<open>Up to \<open>2 ^ 53\<close> every natural number is a double, and sums are exact.\<close>

lemma round_double_exact: "n \<le> 2 ^ 53 \<Longrightarrow> round_double n = Num n"
proof (cases "n < 2 ^ 53")
  case True
  then show ?thesis by (simp add: round_double_def)
next
  case False
  assume "n \<le> 2 ^ 53"
  with False have n: "n = 2 ^ 53" by simp
  have "bitlen ((2::nat) ^ 53) = Suc 53" by (rule bitlen_bounds) simp_all
  then show ?thesis unfolding n by (simp add: round_double_def)
qed

lemma js_add_exact: "a + b \<le> 2 ^ 53 \<Longrightarrow> js_add (Num a) (Num b) = Num (a + b)"
  by (simp add: round_double_exact)

lemma js_succ_exact: "n < 2 ^ 53 \<Longrightarrow> js_add (Num n) (Num 1) = Num (n + 1)"
  by (rule js_add_exact) simp

text \<open>
  From \<open>2 ^ 53\<close> on the doubles are even numbers, and \<open>+ 1\<close> no longer gives the
  successor: at \<open>2 ^ 53\<close> the sum is rounded back to \<open>2 ^ 53\<close>.  A count that large
  cannot come from failures counted from 0, only from a progress file written by
  hand.
\<close>

lemma js_succ_rounds: "js_add (Num (2 ^ 53)) (Num 1) = Num (2 ^ 53)"
proof -
  have "bitlen ((2::nat) ^ 53 + 1) = Suc 53" by (rule bitlen_bounds) simp_all
  then show ?thesis by (simp add: round_double_def)
qed

subsection \<open>failTask\<close>

text \<open>What \<open>failTask\<close> does to one task, given the post-increment retry count.\<close>

definition fail_mark :: "jsstring \<Rightarrow> jsnum \<Rightarrow> TaskEntry \<Rightarrow> TaskEntry" where
  "fail_mark i r t =
     (if task_id t = i
      then t\<lparr>retries := r, task_status := (if js_ge r (Num 3) then Failed else Pending)\<rparr> else t)"

lemma fail_mark_id [simp]: "task_id (fail_mark i r t) = task_id t"
  by (simp add: fail_mark_def)

lemma failTask_present:
  assumes "buildIndex (tasks data) i = Some old"
  shows "failTask data i =
           Inr (if js_ge (js_add (retries old) (Num 1)) (Num 3) then Skip else Retry,
                data\<lparr>current := None,
                     tasks := map (fail_mark i (js_add (retries old) (Num 1))) (tasks data)\<rparr>)"
  using assms by (simp add: failTask_def Let_def fail_mark_def cong: map_cong)

lemma failTask_absent:
  "i \<notin> task_id ` set (tasks data) \<Longrightarrow> failTask data i = Inl (TaskNotFound i)"
  by (simp add: failTask_def buildIndex_None [symmetric])

lemma buildIndex_fail_mark:
  assumes "buildIndex ts i = Some old"
  shows "buildIndex (map (fail_mark i r) ts) i =
           Some (old\<lparr>retries := r, task_status := (if js_ge r (Num 3) then Failed else Pending)\<rparr>)"
proof -
  from assms have "task_id old = i" by (simp add: buildIndex_SomeD)
  then show ?thesis
    using assms by (simp add: buildIndex_map) (simp add: fail_mark_def)
qed

lemma buildIndex_present:
  "i \<in> task_id ` set ts \<Longrightarrow> \<exists>old \<in> set ts. task_id old = i \<and> buildIndex ts i = Some old"
  using buildIndex_None [of ts i] buildIndex_SomeD [of ts i] by (cases "buildIndex ts i") auto

lemma buildIndex_distinct:
  "distinct (map task_id ts) \<Longrightarrow> t \<in> set ts \<Longrightarrow> buildIndex ts (task_id t) = Some t"
  by (simp add: buildIndex_map_of distinct_rev rev_map [symmetric] comp_def map_of_eq_Some_iff)

text \<open>With unique ids the index resolves an id to the one task that carries it.\<close>

lemma buildIndex_unique:
  assumes "distinct (map task_id ts)"
  shows "buildIndex ts d = Some u \<longleftrightarrow> u \<in> set ts \<and> task_id u = d"
  using buildIndex_SomeD [of ts d u] buildIndex_distinct [OF assms, of u] by blast

text \<open>Three failures in a row of a task that has none so far.\<close>

lemma failTask_three_times:
  assumes "buildIndex (tasks data) i = Some old" and "retries old = Num 0"
  shows "\<exists>d1 d2 d3. failTask data i = Inr (Retry, d1) \<and>
                   failTask d1 i = Inr (Retry, d2) \<and>
                   failTask d2 i = Inr (Skip, d3) \<and>
         buildIndex (tasks d1) i = Some (old\<lparr>retries := Num 1, task_status := Pending\<rparr>) \<and>
         buildIndex (tasks d2) i = Some (old\<lparr>retries := Num 2, task_status := Pending\<rparr>) \<and>
         buildIndex (tasks d3) i = Some (old\<lparr>retries := Num 3, task_status := Failed\<rparr>)"
proof -
  let ?d1 = "data\<lparr>current := None, tasks := map (fail_mark i (Num 1)) (tasks data)\<rparr>"
  let ?d2 = "?d1\<lparr>current := None, tasks := map (fail_mark i (Num 2)) (tasks ?d1)\<rparr>"
  let ?d3 = "?d2\<lparr>current := None, tasks := map (fail_mark i (Num 3)) (tasks ?d2)\<rparr>"
  have s: "js_add (Num 0) (Num 1) = Num 1" "js_add (Num 1) (Num 1) = Num 2"
    "js_add (Num 2) (Num 1) = Num 3"
    by (simp_all add: round_double_exact)
  have i1: "buildIndex (tasks ?d1) i = Some (old\<lparr>retries := Num 1, task_status := Pending\<rparr>)"
    using buildIndex_fail_mark [of "tasks data" i old "Num 1"] assms by simp
  have i2: "buildIndex (tasks ?d2) i = Some (old\<lparr>retries := Num 2, task_status := Pending\<rparr>)"
    using buildIndex_fail_mark [OF i1, of "Num 2"] by simp
  have i3: "buildIndex (tasks ?d3) i = Some (old\<lparr>retries := Num 3, task_status := Failed\<rparr>)"
    using buildIndex_fail_mark [OF i2, of "Num 3"] by simp
  have f1: "failTask data i = Inr (Retry, ?d1)"
    using failTask_present [of data i old] assms s by simp
  have f2: "failTask ?d1 i = Inr (Retry, ?d2)"
    using failTask_present [OF i1] s by simp
  have f3: "failTask ?d2 i = Inr (Skip, ?d3)"
    using failTask_present [OF i2] s by simp
  from f1 f2 f3 i1 i2 i3 show ?thesis by blast
qed

text \<open>
  Claim C3.  If no task has the id, \<open>failTask\<close> raises task-not-found.  If one has,
  let \<open>old\<close> be the task the index gives for the id (with unique ids, the one task of
  that id) and \<open>r\<close> the post-increment retry count \<open>old.retries + 1\<close>.  For a count
  \<open>n\<close> below \<open>2 ^ 53\<close>, the range in which a JavaScript number counts exactly, \<open>r\<close> is
  \<open>n + 1\<close>.  The result is skip when \<open>r\<close> is at least 3 and retry otherwise;
  \<open>current\<close> is cleared, name and workflow status are kept, every task of another id
  is unchanged, and the task of that id has \<open>r\<close> retries and status failed (skip) or
  pending (retry).  Starting at 0 retries, three applications in a row give retry
  with 1, retry with 2, skip with 3 and status failed.
\<close>

theorem failTask_spec:
  "(i \<notin> task_id ` set (tasks data) \<longrightarrow> failTask data i = Inl (TaskNotFound i)) \<and>
   (i \<in> task_id ` set (tasks data) \<longrightarrow>
      (\<exists>old \<in> set (tasks data). \<exists>data' r. task_id old = i \<and> buildIndex (tasks data) i = Some old \<and>
         r = js_add (retries old) (Num 1) \<and>
         (\<forall>n. retries old = Num n \<and> n < 2 ^ 53 \<longrightarrow>
               r = Num (n + 1) \<and> (js_ge r (Num 3) \<longleftrightarrow> 3 \<le> n + 1)) \<and>
         failTask data i = Inr (if js_ge r (Num 3) then Skip else Retry, data') \<and>
         current data' = None \<and> status data' = status data \<and> name data' = name data \<and>
         length (tasks data') = length (tasks data) \<and>
         (\<forall>k < length (tasks data).
            tasks data' ! k =
              (if task_id (tasks data ! k) = i
               then (tasks data ! k)\<lparr>retries := r,
                      task_status := (if js_ge r (Num 3) then Failed else Pending)\<rparr>
               else tasks data ! k)) \<and>
         buildIndex (tasks data') i =
           Some (old\<lparr>retries := r,
                      task_status := (if js_ge r (Num 3) then Failed else Pending)\<rparr>))) \<and>
   (\<forall>old. buildIndex (tasks data) i = Some old \<and> retries old = Num 0 \<longrightarrow>
      (\<exists>d1 d2 d3. failTask data i = Inr (Retry, d1) \<and>
                   failTask d1 i = Inr (Retry, d2) \<and>
                   failTask d2 i = Inr (Skip, d3) \<and>
         buildIndex (tasks d1) i = Some (old\<lparr>retries := Num 1, task_status := Pending\<rparr>) \<and>
         buildIndex (tasks d2) i = Some (old\<lparr>retries := Num 2, task_status := Pending\<rparr>) \<and>
         buildIndex (tasks d3) i = Some (old\<lparr>retries := Num 3, task_status := Failed\<rparr>)))"
proof (intro conjI impI allI)
  assume "i \<notin> task_id ` set (tasks data)"
  then show "failTask data i = Inl (TaskNotFound i)" by (rule failTask_absent)
next
  assume "i \<in> task_id ` set (tasks data)"
  then obtain old where o: "old \<in> set (tasks data)" "task_id old = i"
    "buildIndex (tasks data) i = Some old"
    using buildIndex_present by blast
  define r where "r = js_add (retries old) (Num 1)"
  let ?d = "data\<lparr>current := None, tasks := map (fail_mark i r) (tasks data)\<rparr>"
  have 1: "failTask data i = Inr (if js_ge r (Num 3) then Skip else Retry, ?d)"
    unfolding r_def using o(3) by (rule failTask_present)
  have 2: "\<forall>k < length (tasks data).
            tasks ?d ! k =
              (if task_id (tasks data ! k) = i
               then (tasks data ! k)\<lparr>retries := r,
                      task_status := (if js_ge r (Num 3) then Failed else Pending)\<rparr>
               else tasks data ! k)"
    by (simp add: fail_mark_def)
  have 3: "buildIndex (tasks ?d) i =
           Some (old\<lparr>retries := r,
                      task_status := (if js_ge r (Num 3) then Failed else Pending)\<rparr>)"
    using buildIndex_fail_mark [OF o(3)] by simp
  have 4: "current ?d = None \<and> status ?d = status data \<and> name ?d = name data \<and>
         length (tasks ?d) = length (tasks data)" by simp
  have 5: "\<forall>n. retries old = Num n \<and> n < 2 ^ 53 \<longrightarrow>
               r = Num (n + 1) \<and> (js_ge r (Num 3) \<longleftrightarrow> 3 \<le> n + 1)"
  proof (intro allI impI, elim conjE)
    fix n assume "retries old = Num n" "n < 2 ^ 53"
    then have "r = Num (n + 1)" unfolding r_def by (simp only: js_succ_exact)
    then show "r = Num (n + 1) \<and> (js_ge r (Num 3) \<longleftrightarrow> 3 \<le> n + 1)" by simp
  qed
  from o(2,3) r_def 5 1 4 2 3
  have "\<exists>data' r. task_id old = i \<and> buildIndex (tasks data) i = Some old \<and>
         r = js_add (retries old) (Num 1) \<and>
         (\<forall>n. retries old = Num n \<and> n < 2 ^ 53 \<longrightarrow>
               r = Num (n + 1) \<and> (js_ge r (Num 3) \<longleftrightarrow> 3 \<le> n + 1)) \<and>
         failTask data i = Inr (if js_ge r (Num 3) then Skip else Retry, data') \<and>
         current data' = None \<and> status data' = status data \<and> name data' = name data \<and>
         length (tasks data') = length (tasks data) \<and>
         (\<forall>k < length (tasks data).
            tasks data' ! k =
              (if task_id (tasks data ! k) = i
               then (tasks data ! k)\<lparr>retries := r,
                      task_status := (if js_ge r (Num 3) then Failed else Pending)\<rparr>
               else tasks data ! k)) \<and>
         buildIndex (tasks data') i =
           Some (old\<lparr>retries := r,
                      task_status := (if js_ge r (Num 3) then Failed else Pending)\<rparr>)"
    by (intro exI [of _ ?d] exI [of _ r]) (elim conjE, intro conjI; assumption)
  with o(1) show "\<exists>old \<in> set (tasks data). \<exists>data' r. task_id old = i \<and> buildIndex (tasks data) i = Some old \<and>
         r = js_add (retries old) (Num 1) \<and>
         (\<forall>n. retries old = Num n \<and> n < 2 ^ 53 \<longrightarrow>
               r = Num (n + 1) \<and> (js_ge r (Num 3) \<longleftrightarrow> 3 \<le> n + 1)) \<and>
         failTask data i = Inr (if js_ge r (Num 3) then Skip else Retry, data') \<and>
         current data' = None \<and> status data' = status data \<and> name data' = name data \<and>
         length (tasks data') = length (tasks data) \<and>
         (\<forall>k < length (tasks data).
            tasks data' ! k =
              (if task_id (tasks data ! k) = i
               then (tasks data ! k)\<lparr>retries := r,
                      task_status := (if js_ge r (Num 3) then Failed else Pending)\<rparr>
               else tasks data ! k)) \<and>
         buildIndex (tasks data') i =
           Some (old\<lparr>retries := r,
                      task_status := (if js_ge r (Num 3) then Failed else Pending)\<rparr>)"
    by (rule bexI [rotated])
next
  fix old
  assume "buildIndex (tasks data) i = Some old \<and> retries old = Num 0"
  then show "\<exists>d1 d2 d3. failTask data i = Inr (Retry, d1) \<and>
                   failTask d1 i = Inr (Retry, d2) \<and>
                   failTask d2 i = Inr (Skip, d3) \<and>
         buildIndex (tasks d1) i = Some (old\<lparr>retries := Num 1, task_status := Pending\<rparr>) \<and>
         buildIndex (tasks d2) i = Some (old\<lparr>retries := Num 2, task_status := Pending\<rparr>) \<and>
         buildIndex (tasks d3) i = Some (old\<lparr>retries := Num 3, task_status := Failed\<rparr>)"
    using failTask_three_times [of data i old] by blast
qed


theorem failTask_spec_witness:
  "(0::nat) < 2 ^ 53 \<and>
   [0x30, 0x30, 0x39] \<notin> task_id ` set (tasks \<lparr>name = [], status = Running, current = Some [0x30, 0x30, 0x31],
      tasks = [\<lparr>task_id = [0x30, 0x30, 0x31], title = [], description = [], task_type = General,
                task_status = Active, deps = [], summary = [], retries = Num 0\<rparr>]\<rparr>) \<and>
   failTask \<lparr>name = [], status = Running, current = Some [0x30, 0x30, 0x31],
      tasks = [\<lparr>task_id = [0x30, 0x30, 0x31], title = [], description = [], task_type = General,
                task_status = Active, deps = [], summary = [], retries = Num 0\<rparr>]\<rparr> [0x30, 0x30, 0x39]
     = Inl (TaskNotFound [0x30, 0x30, 0x39]) \<and>
   [0x30, 0x30, 0x31] \<in> task_id ` set (tasks \<lparr>name = [], status = Running, current = Some [0x30, 0x30, 0x31],
      tasks = [\<lparr>task_id = [0x30, 0x30, 0x31], title = [], description = [], task_type = General,
                task_status = Active, deps = [], summary = [], retries = Num 0\<rparr>]\<rparr>) \<and>
   failTask \<lparr>name = [], status = Running, current = Some [0x30, 0x30, 0x31],
      tasks = [\<lparr>task_id = [0x30, 0x30, 0x31], title = [], description = [], task_type = General,
                task_status = Active, deps = [], summary = [], retries = Num 0\<rparr>]\<rparr> [0x30, 0x30, 0x31]
     = Inr (Retry, \<lparr>name = [], status = Running, current = None,
      tasks = [\<lparr>task_id = [0x30, 0x30, 0x31], title = [], description = [], task_type = General,
                task_status = Pending, deps = [], summary = [], retries = Num 1\<rparr>]\<rparr>) \<and>
   failTask \<lparr>name = [], status = Running, current = None,
      tasks = [\<lparr>task_id = [0x30, 0x30, 0x31], title = [], description = [], task_type = General,
                task_status = Pending, deps = [], summary = [], retries = Num 1\<rparr>]\<rparr> [0x30, 0x30, 0x31]
     = Inr (Retry, \<lparr>name = [], status = Running, current = None,
      tasks = [\<lparr>task_id = [0x30, 0x30, 0x31], title = [], description = [], task_type = General,
                task_status = Pending, deps = [], summary = [], retries = Num 2\<rparr>]\<rparr>) \<and>
   failTask \<lparr>name = [], status = Running, current = None,
      tasks = [\<lparr>task_id = [0x30, 0x30, 0x31], title = [], description = [], task_type = General,
                task_status = Pending, deps = [], summary = [], retries = Num 2\<rparr>]\<rparr> [0x30, 0x30, 0x31]
     = Inr (Skip, \<lparr>name = [], status = Running, current = None,
      tasks = [\<lparr>task_id = [0x30, 0x30, 0x31], title = [], description = [], task_type = General,
                task_status = Failed, deps = [], summary = [], retries = Num 3\<rparr>]\<rparr>)"
  using failTask_spec [of "[0x30, 0x30, 0x39]" "\<lparr>name = [], status = Running, current = Some [0x30, 0x30, 0x31],
      tasks = [\<lparr>task_id = [0x30, 0x30, 0x31], title = [], description = [], task_type = General,
                task_status = Active, deps = [], summary = [], retries = Num 0\<rparr>]\<rparr>"]
    failTask_spec [of "[0x30, 0x30, 0x31]" "\<lparr>name = [], status = Running, current = Some [0x30, 0x30, 0x31],
      tasks = [\<lparr>task_id = [0x30, 0x30, 0x31], title = [], description = [], task_type = General,
                task_status = Active, deps = [], summary = [], retries = Num 0\<rparr>]\<rparr>"]
  by (simp add: failTask_def buildIndex_def round_double_exact)

text \<open>
  Claim C9.  \<open>failTask\<close> never reads the status of the task it is given: overwriting
  that status by any value, done, skipped and failed included, leaves its result the
  same, and whatever the status was the task ends pending or failed, with one more
  retry for a count below \<open>2 ^ 53\<close>, the range in which a JavaScript number counts
  exactly.  That a finished task is not failed again is the work of \<open>checkpoint\<close>,
  which refuses a task that is not active before \<open>failTask\<close> is reached and leaves
  the repository as it was.
\<close>

theorem failTask_ignores_status:
  "failTask (data\<lparr>tasks := map (\<lambda>t. if task_id t = i then t\<lparr>task_status := st\<rparr> else t) (tasks data)\<rparr>) i
     = failTask data i \<and>
   (\<forall>old. buildIndex (tasks data) i = Some old \<longrightarrow>
      (\<exists>res data' new. failTask data i = Inr (res, data') \<and>
          buildIndex (tasks data') i = Some new \<and>
          retries new = js_add (retries old) (Num 1) \<and>
          (\<forall>n. retries old = Num n \<and> n < 2 ^ 53 \<longrightarrow> retries new = Num (n + 1)) \<and>
          (task_status new = Pending \<or> task_status new = Failed))) \<and>
   (\<forall>t c. progress r = Some data \<and> find (\<lambda>t. task_id t = i) (tasks data) = Some t \<and>
          task_status t \<noteq> Active \<longrightarrow>
      checkpoint i FAILED c r = (r\<lparr>locked := False\<rparr>, Inl (TaskNotActive i (task_status t))))"
proof (intro conjI allI impI)
  let ?g = "\<lambda>t. if task_id t = i then t\<lparr>task_status := st\<rparr> else t"
  let ?d = "data\<lparr>tasks := map ?g (tasks data)\<rparr>"
  have ix: "buildIndex (tasks ?d) i = map_option ?g (buildIndex (tasks data) i)"
    by (simp add: buildIndex_map)
  show "failTask ?d i = failTask data i"
  proof (cases "buildIndex (tasks data) i")
    case None
    with ix show ?thesis by (simp add: failTask_def)
  next
    case (Some old)
    then have "task_id old = i" by (simp add: buildIndex_SomeD)
    with ix Some have ix': "buildIndex (tasks ?d) i = Some (old\<lparr>task_status := st\<rparr>)" by simp
    have "fail_mark i (js_add (retries old) (Num 1)) \<circ> ?g = fail_mark i (js_add (retries old) (Num 1))"
      by (rule ext) (simp add: fail_mark_def)
    then have "map (fail_mark i (js_add (retries old) (Num 1))) (map ?g (tasks data))
                 = map (fail_mark i (js_add (retries old) (Num 1))) (tasks data)"
      by (simp only: map_map)
    then show ?thesis
      using failTask_present [OF ix'] failTask_present [OF Some] by simp
  qed
next
  fix old assume a: "buildIndex (tasks data) i = Some old"
  define q where "q = js_add (retries old) (Num 1)"
  let ?d = "data\<lparr>current := None, tasks := map (fail_mark i q) (tasks data)\<rparr>"
  let ?new = "old\<lparr>retries := q, task_status := (if js_ge q (Num 3) then Failed else Pending)\<rparr>"
  have 1: "failTask data i = Inr (if js_ge q (Num 3) then Skip else Retry, ?d)"
    unfolding q_def using a by (rule failTask_present)
  have 2: "buildIndex (tasks ?d) i = Some ?new"
    using buildIndex_fail_mark [OF a] by simp
  have 3: "retries ?new = js_add (retries old) (Num 1)" by (simp add: q_def)
  have 4: "\<forall>n. retries old = Num n \<and> n < 2 ^ 53 \<longrightarrow> retries ?new = Num (n + 1)"
  proof (intro allI impI, elim conjE)
    fix n assume "retries old = Num n" "n < 2 ^ 53"
    then have "q = Num (n + 1)" unfolding q_def by (simp only: js_succ_exact)
    then show "retries ?new = Num (n + 1)" by simp
  qed
  have 5: "task_status ?new = Pending \<or> task_status ?new = Failed" by simp
  from 1 2 3 4 5
  show "\<exists>res data' new. failTask data i = Inr (res, data') \<and>
          buildIndex (tasks data') i = Some new \<and>
          retries new = js_add (retries old) (Num 1) \<and>
          (\<forall>n. retries old = Num n \<and> n < 2 ^ 53 \<longrightarrow> retries new = Num (n + 1)) \<and>
          (task_status new = Pending \<or> task_status new = Failed)"
    by (intro exI [of _ ?d] exI [of _ ?new] exI [of _ "if js_ge q (Num 3) then Skip else Retry"] conjI)
next
  fix t c
  assume "progress r = Some data \<and> find (\<lambda>t. task_id t = i) (tasks data) = Some t \<and>
          task_status t \<noteq> Active"
  then show "checkpoint i FAILED c r = (r\<lparr>locked := False\<rparr>, Inl (TaskNotActive i (task_status t)))"
    by (simp add: checkpoint_def checkpoint_body_def lock_def unlock_def)
qed

theorem failTask_ignores_status_witness:
  "(0::nat) < 2 ^ 53 \<and>
   buildIndex (tasks \<lparr>name = [], status = Running, current = None,
      tasks = [\<lparr>task_id = [0x30, 0x30, 0x31], title = [], description = [], task_type = General,
                task_status = Done, deps = [], summary = [0x6F, 0x6B], retries = Num 0\<rparr>]\<rparr>) [0x30, 0x30, 0x31]
     = Some \<lparr>task_id = [0x30, 0x30, 0x31], title = [], description = [], task_type = General,
                task_status = Done, deps = [], summary = [0x6F, 0x6B], retries = Num 0\<rparr> \<and>
   failTask \<lparr>name = [], status = Running, current = None,
      tasks = [\<lparr>task_id = [0x30, 0x30, 0x31], title = [], description = [], task_type = General,
                task_status = Done, deps = [], summary = [0x6F, 0x6B], retries = Num 0\<rparr>]\<rparr> [0x30, 0x30, 0x31]
     = Inr (Retry, \<lparr>name = [], status = Running, current = None,
      tasks = [\<lparr>task_id = [0x30, 0x30, 0x31], title = [], description = [], task_type = General,
                task_status = Pending, deps = [], summary = [0x6F, 0x6B], retries = Num 1\<rparr>]\<rparr>) \<and>
   checkpoint [0x30, 0x30, 0x31] FAILED None
      \<lparr>progress = Some \<lparr>name = [], status = Running, current = None,
          tasks = [\<lparr>task_id = [0x30, 0x30, 0x31], title = [], description = [], task_type = General,
                task_status = Done, deps = [], summary = [0x6F, 0x6B], retries = Num 0\<rparr>]\<rparr>,
       save_log = [], locked = False, hook_log = []\<rparr>
     = (\<lparr>progress = Some \<lparr>name = [], status = Running, current = None,
          tasks = [\<lparr>task_id = [0x30, 0x30, 0x31], title = [], description = [], task_type = General,
                task_status = Done, deps = [], summary = [0x6F, 0x6B], retries = Num 0\<rparr>]\<rparr>,
       save_log = [], locked = False, hook_log = []\<rparr>, Inl (TaskNotActive [0x30, 0x30, 0x31] Done))"
  using failTask_ignores_status [where data = "\<lparr>name = [], status = Running, current = None,
      tasks = [\<lparr>task_id = [0x30, 0x30, 0x31], title = [], description = [], task_type = General,
                task_status = Done, deps = [], summary = [0x6F, 0x6B], retries = Num 0\<rparr>]\<rparr>"
      and i = "[0x30, 0x30, 0x31]" and st = Done
      and r = "\<lparr>progress = Some \<lparr>name = [], status = Running, current = None,
          tasks = [\<lparr>task_id = [0x30, 0x30, 0x31], title = [], description = [], task_type = General,
                task_status = Done, deps = [], summary = [0x6F, 0x6B], retries = Num 0\<rparr>]\<rparr>,
       save_log = [], locked = False, hook_log = []\<rparr>"]
  by (simp add: failTask_def buildIndex_def round_double_exact)

subsection \<open>checkpoint\<close>

lemma dropWhile_all: "(\<forall>c \<in> set s. P c) \<Longrightarrow> dropWhile P s = []"
  by (induction s) auto

lemma dropWhile_Nil_all: "dropWhile P s = [] \<Longrightarrow> (\<forall>c \<in> set s. P c)"
  by (induction s) (auto split: if_splits)

lemma trim_blank: "trim s = [] \<longleftrightarrow> (\<forall>c \<in> set s. is_ws c)"
proof
  assume "trim s = []"
  then have "dropWhile is_ws (rev (dropWhile is_ws s)) = []" by (simp add: trim_def)
  then have "\<forall>c \<in> set (rev (dropWhile is_ws s)). is_ws c"
    by (rule dropWhile_Nil_all)
  then have all: "\<forall>c \<in> set (dropWhile is_ws s). is_ws c" by (simp only: set_rev)
  have "dropWhile is_ws s = []"
  proof (rule ccontr)
    assume ne: "dropWhile is_ws s \<noteq> []"
    then have "\<not> is_ws (hd (dropWhile is_ws s))" by (rule hd_dropWhile)
    moreover from ne have "hd (dropWhile is_ws s) \<in> set (dropWhile is_ws s)" by simp
    ultimately show False using all by blast
  qed
  then show "\<forall>c \<in> set s. is_ws c" by (rule dropWhile_Nil_all)
next
  assume "\<forall>c \<in> set s. is_ws c"
  then have "dropWhile is_ws s = []" by (rule dropWhile_all)
  then show "trim s = []" by (simp only: trim_def dropWhile.simps rev.simps)
qed

lemma summaryLine_no_newline: "0xA \<notin> set (summaryLine detail)"
proof
  assume "0xA \<in> set (summaryLine detail)"
  then have "0xA \<in> set (takeWhile (\<lambda>c. c \<noteq> 0xA) detail)"
    unfolding summaryLine_def by (rule in_set_takeD)
  then have "(0xA :: 16 word) \<noteq> 0xA" by (rule set_takeWhileD [THEN conjunct2])
  then show False by simp
qed

lemma summaryLine_first_line:
  "\<exists>rest. detail = summaryLine detail @ rest \<and> length (summaryLine detail) \<le> 80 \<and>
      0xA \<notin> set (summaryLine detail) \<and>
      (length (summaryLine detail) = 80 \<or> rest = [] \<or> hd rest = 0xA)"
proof (cases "80 \<le> length (takeWhile (\<lambda>c. c \<noteq> 0xA) detail)")
  case True
  let ?l = "takeWhile (\<lambda>c. c \<noteq> 0xA) detail"
  have "detail = ?l @ dropWhile (\<lambda>c. c \<noteq> 0xA) detail" by simp
  also have "?l = take 80 ?l @ drop 80 ?l" by simp
  finally have "detail = summaryLine detail @ (drop 80 ?l @ dropWhile (\<lambda>c. c \<noteq> 0xA) detail)"
    unfolding summaryLine_def append_assoc .
  moreover have "length (summaryLine detail) = 80" using True by (simp add: summaryLine_def)
  ultimately show ?thesis using summaryLine_no_newline [of detail]
    by (intro exI [of _ "drop 80 ?l @ dropWhile (\<lambda>c. c \<noteq> 0xA) detail"]) simp
next
  case False
  let ?l = "takeWhile (\<lambda>c. c \<noteq> 0xA) detail"
  from False have s: "summaryLine detail = ?l" by (simp add: summaryLine_def)
  have 1: "detail = summaryLine detail @ dropWhile (\<lambda>c. c \<noteq> 0xA) detail" by (simp add: s)
  have 2: "length (summaryLine detail) \<le> 80" by (simp add: summaryLine_def)
  have 3: "dropWhile (\<lambda>c. c \<noteq> 0xA) detail = [] \<or> hd (dropWhile (\<lambda>c. c \<noteq> 0xA) detail) = 0xA"
    using hd_dropWhile [of "\<lambda>c. c \<noteq> 0xA" detail] by blast
  from 1 2 3 summaryLine_no_newline [of detail] show ?thesis
    by (intro exI [of _ "dropWhile (\<lambda>c. c \<noteq> 0xA) detail"]) simp
qed

lemma checkpoint_not_found:
  assumes "progress r = Some data" "find (\<lambda>t. task_id t = i) (tasks data) = None"
  shows "checkpoint i detail c r = (r\<lparr>locked := False\<rparr>, Inl (TaskNotFound i))"
  using assms by (simp add: checkpoint_def checkpoint_body_def lock_def unlock_def)

lemma checkpoint_not_active:
  assumes "progress r = Some data" "find (\<lambda>t. task_id t = i) (tasks data) = Some t"
    "task_status t \<noteq> Active"
  shows "checkpoint i detail c r = (r\<lparr>locked := False\<rparr>, Inl (TaskNotActive i (task_status t)))"
  using assms by (simp add: checkpoint_def checkpoint_body_def lock_def unlock_def)

lemma find_Some_index:
  assumes "find (\<lambda>t. task_id t = i) ts = Some t"
  shows "buildIndex ts i \<noteq> None"
proof -
  from assms have "t \<in> set ts \<and> task_id t = i"
    by (auto simp: find_Some_iff)
  then show ?thesis by (auto simp: buildIndex_None)
qed

lemma checkpoint_failed:
  assumes "progress r = Some data" "find (\<lambda>t. task_id t = i) (tasks data) = Some t"
    "task_status t = Active"
  shows "\<exists>r' m. checkpoint i FAILED c r = (r', Inr m)"
proof -
  from find_Some_index [OF assms(2)] obtain old where "buildIndex (tasks data) i = Some old"
    by blast
  from failTask_present [OF this] assms show ?thesis
    by (simp add: checkpoint_def checkpoint_body_def lock_def unlock_def)
qed

lemma checkpoint_empty:
  assumes "progress r = Some data" "find (\<lambda>t. task_id t = i) (tasks data) = Some t"
    "task_status t = Active" "detail \<noteq> FAILED" "trim detail = []"
  shows "checkpoint i detail c r = (r\<lparr>locked := False\<rparr>, Inl (CheckpointEmpty i))"
  using assms by (simp add: checkpoint_def checkpoint_body_def lock_def unlock_def)

text \<open>What \<open>completeTask\<close> does to one task.\<close>

definition done_mark :: "jsstring \<Rightarrow> jsstring \<Rightarrow> TaskEntry \<Rightarrow> TaskEntry" where
  "done_mark i summ t = (if task_id t = i then t\<lparr>task_status := Done, summary := summ\<rparr> else t)"

lemma done_mark_id [simp]: "task_id (done_mark i summ t) = task_id t"
  by (simp add: done_mark_def)

lemma done_mark_result:
  assumes "u \<in> set (map (done_mark i s) ts)" "task_id u = i"
  shows "task_status u = Done \<and> summary u = s"
proof -
  from assms(1) obtain t where u: "u = done_mark i s t" by auto
  with assms(2) have "task_id t = i" by simp
  with u show ?thesis by (simp add: done_mark_def)
qed

lemma completeTask_present:
  assumes "buildIndex (tasks data) i \<noteq> None"
  shows "completeTask data i summ = Inr (data\<lparr>current := None, tasks := map (done_mark i summ) (tasks data)\<rparr>)"
  using assms by (simp add: completeTask_def done_mark_def cong: map_cong)

lemma checkpoint_done:
  assumes "progress r = Some data" "find (\<lambda>t. task_id t = i) (tasks data) = Some t"
    "task_status t = Active" "detail \<noteq> FAILED" "trim detail \<noteq> []"
  shows "\<exists>r' m. checkpoint i detail c r = (r', Inr m) \<and>
           progress r' = Some (data\<lparr>current := None,
                                   tasks := map (done_mark i (summaryLine detail)) (tasks data)\<rparr>)"
  using assms completeTask_present [OF find_Some_index [OF assms(2)], of "summaryLine detail"]
  by (simp add: checkpoint_def checkpoint_body_def lock_def unlock_def Let_def saveProgress_def
      runLifecycleHook_def)

lemma checkpoint_result_cases:
  assumes "progress r = Some data"
  obtains (absent) "find (\<lambda>t. task_id t = i) (tasks data) = None"
      "i \<notin> task_id ` set (tasks data)"
      "checkpoint i detail c r = (r\<lparr>locked := False\<rparr>, Inl (TaskNotFound i))"
  | (inactive) t where "find (\<lambda>t. task_id t = i) (tasks data) = Some t" "task_status t \<noteq> Active"
      "i \<in> task_id ` set (tasks data)"
      "checkpoint i detail c r = (r\<lparr>locked := False\<rparr>, Inl (TaskNotActive i (task_status t)))"
  | (failed) t r' m where "find (\<lambda>t. task_id t = i) (tasks data) = Some t" "task_status t = Active"
      "i \<in> task_id ` set (tasks data)" "detail = FAILED"
      "checkpoint i detail c r = (r', Inr m)"
  | (empty) t where "find (\<lambda>t. task_id t = i) (tasks data) = Some t" "task_status t = Active"
      "i \<in> task_id ` set (tasks data)" "detail \<noteq> FAILED" "trim detail = []"
      "checkpoint i detail c r = (r\<lparr>locked := False\<rparr>, Inl (CheckpointEmpty i))"
  | (ok) t r' m where "find (\<lambda>t. task_id t = i) (tasks data) = Some t" "task_status t = Active"
      "i \<in> task_id ` set (tasks data)" "detail \<noteq> FAILED" "trim detail \<noteq> []"
      "checkpoint i detail c r = (r', Inr m)"
      "progress r' = Some (data\<lparr>current := None,
                                   tasks := map (done_mark i (summaryLine detail)) (tasks data)\<rparr>)"
proof (cases "find (\<lambda>t. task_id t = i) (tasks data)")
  case None
  then have "i \<notin> task_id ` set (tasks data)" by (auto simp: find_None_iff)
  with checkpoint_not_found [OF assms None] None absent show ?thesis by blast
next
  case (Some t)
  then have mem: "i \<in> task_id ` set (tasks data)" by (auto simp: find_Some_iff)
  show ?thesis
  proof (cases "task_status t = Active")
    case False
    with checkpoint_not_active [OF assms Some] mem Some inactive show ?thesis by blast
  next
    case True
    show ?thesis
    proof (cases "detail = FAILED")
      case f: True
      from checkpoint_failed [OF assms Some True, of c] obtain r' m where
        "checkpoint i detail c r = (r', Inr m)" using f by blast
      with failed Some True mem f show ?thesis by blast
    next
      case nf: False
      show ?thesis
      proof (cases "trim detail = []")
        case e: True
        from checkpoint_empty [OF assms Some True nf e] empty Some True mem nf e
        show ?thesis by blast
      next
        case ne: False
        from checkpoint_done [OF assms Some True nf ne, of c] obtain r' m where
          "checkpoint i detail c r = (r', Inr m)"
          "progress r' = Some (data\<lparr>current := None,
                                   tasks := map (done_mark i (summaryLine detail)) (tasks data)\<rparr>)"
          by blast
        with ok Some True mem nf ne show ?thesis by blast
      qed
    qed
  qed
qed

lemma checkpoint_raises_not_found:
  assumes "progress r = Some data"
  shows "(\<exists>j. snd (checkpoint i detail c r) = Inl (TaskNotFound j)) \<longleftrightarrow>
            i \<notin> task_id ` set (tasks data)"
  by (rule checkpoint_result_cases [OF assms, of i detail c]) simp_all

lemma checkpoint_raises_not_active:
  assumes "progress r = Some data"
  shows "(\<exists>j st. snd (checkpoint i detail c r) = Inl (TaskNotActive j st)) \<longleftrightarrow>
            (\<exists>t. find (\<lambda>t. task_id t = i) (tasks data) = Some t \<and> task_status t \<noteq> Active)"
  by (rule checkpoint_result_cases [OF assms, of i detail c])
     (simp_all del: find_None_iff find_None_iff2)

lemma checkpoint_raises_empty:
  assumes "progress r = Some data" "detail \<noteq> FAILED"
  shows "(\<exists>j. snd (checkpoint i detail c r) = Inl (CheckpointEmpty j)) \<longleftrightarrow>
               (\<exists>t. find (\<lambda>t. task_id t = i) (tasks data) = Some t \<and> task_status t = Active) \<and>
               trim detail = []"
  using assms(2)
  by (rule_tac checkpoint_result_cases [OF assms(1), of i detail c])
     (simp_all del: find_None_iff find_None_iff2)

lemma checkpoint_completes:
  assumes "progress r = Some data" "detail \<noteq> FAILED" "snd (checkpoint i detail c r) = Inr m"
  shows "\<exists>data' t'. progress (fst (checkpoint i detail c r)) = Some data' \<and>
               buildIndex (tasks data') i = Some t' \<and>
               (\<forall>u \<in> set (tasks data'). task_id u = i \<longrightarrow>
                   task_status u = Done \<and> summary u = summaryLine detail)"
proof (rule checkpoint_result_cases [OF assms(1), of i detail c])
  fix t r' m'
  assume a: "find (\<lambda>t. task_id t = i) (tasks data) = Some t"
    "checkpoint i detail c r = (r', Inr m')"
    "progress r' = Some (data\<lparr>current := None,
                                   tasks := map (done_mark i (summaryLine detail)) (tasks data)\<rparr>)"
  let ?d = "data\<lparr>current := None, tasks := map (done_mark i (summaryLine detail)) (tasks data)\<rparr>"
  from find_Some_index [OF a(1)] obtain old where o: "buildIndex (tasks data) i = Some old"
    by blast
  have "buildIndex (map (done_mark i (summaryLine detail)) (tasks data)) i
           = map_option (done_mark i (summaryLine detail)) (buildIndex (tasks data) i)"
    by (rule buildIndex_map) (rule done_mark_id)
  with o have 1: "buildIndex (tasks ?d) i = Some (done_mark i (summaryLine detail) old)"
    by simp
  have 2: "\<forall>u \<in> set (tasks ?d). task_id u = i \<longrightarrow>
                   task_status u = Done \<and> summary u = summaryLine detail"
    using done_mark_result by simp
  have 3: "progress (fst (checkpoint i detail c r)) = Some ?d" using a by simp
  show ?thesis by (intro exI conjI) (rule 3, rule 1, rule 2)
next
  fix t r' m'
  assume "detail = FAILED"
  with assms(2) show ?thesis by simp
next
  assume "checkpoint i detail c r = (r\<lparr>locked := False\<rparr>, Inl (TaskNotFound i))"
  with assms(3) show ?thesis by simp
next
  fix t
  assume "checkpoint i detail c r = (r\<lparr>locked := False\<rparr>, Inl (TaskNotActive i (task_status t)))"
  with assms(3) show ?thesis by simp
next
  assume "checkpoint i detail c r = (r\<lparr>locked := False\<rparr>, Inl (CheckpointEmpty i))"
  with assms(3) show ?thesis by simp
qed

text \<open>
  Claim C8.  On an existing workflow, \<open>checkpoint\<close> raises task-not-found exactly when
  no task has the id; it raises task-not-active exactly when the task found has a
  status other than active; and, for a detail that is not the sentinel FAILED and a
  task that is found and active (the two earlier tests come first), it raises
  checkpoint-content-empty exactly when the detail is blank after trimming, that is
  when all its code units are white space.  When it succeeds on such a detail, the
  persisted aggregate has the task done, with the first line of the detail cut to 80
  code units as its summary: a prefix of the detail without line feed, of length at
  most 80, that stops only at 80 units, at a line feed or at the end.
\<close>

theorem checkpoint_spec:
  assumes "progress r = Some data"
  shows "((\<exists>j. snd (checkpoint i detail c r) = Inl (TaskNotFound j)) \<longleftrightarrow>
            i \<notin> task_id ` set (tasks data)) \<and>
         ((\<exists>j st. snd (checkpoint i detail c r) = Inl (TaskNotActive j st)) \<longleftrightarrow>
            (\<exists>t. find (\<lambda>t. task_id t = i) (tasks data) = Some t \<and> task_status t \<noteq> Active)) \<and>
         (detail \<noteq> FAILED \<longrightarrow>
            ((\<exists>j. snd (checkpoint i detail c r) = Inl (CheckpointEmpty j)) \<longleftrightarrow>
               (\<exists>t. find (\<lambda>t. task_id t = i) (tasks data) = Some t \<and> task_status t = Active) \<and>
               trim detail = [])) \<and>
         (detail \<noteq> FAILED \<and> (\<exists>m. snd (checkpoint i detail c r) = Inr m) \<longrightarrow>
            (\<exists>data' t'. progress (fst (checkpoint i detail c r)) = Some data' \<and>
               buildIndex (tasks data') i = Some t' \<and>
               (\<forall>u \<in> set (tasks data'). task_id u = i \<longrightarrow>
                   task_status u = Done \<and> summary u = summaryLine detail))) \<and>
         (trim detail = [] \<longleftrightarrow> (\<forall>u \<in> set detail. is_ws u)) \<and>
         (\<exists>rest. detail = summaryLine detail @ rest \<and> length (summaryLine detail) \<le> 80 \<and>
             0xA \<notin> set (summaryLine detail) \<and>
             (length (summaryLine detail) = 80 \<or> rest = [] \<or> hd rest = 0xA))"
proof (intro conjI impI)
  show "(\<exists>j. snd (checkpoint i detail c r) = Inl (TaskNotFound j)) \<longleftrightarrow>
            i \<notin> task_id ` set (tasks data)"
    by (rule checkpoint_raises_not_found [OF assms])
  show "(\<exists>j st. snd (checkpoint i detail c r) = Inl (TaskNotActive j st)) \<longleftrightarrow>
            (\<exists>t. find (\<lambda>t. task_id t = i) (tasks data) = Some t \<and> task_status t \<noteq> Active)"
    by (rule checkpoint_raises_not_active [OF assms])
  show "(\<exists>j. snd (checkpoint i detail c r) = Inl (CheckpointEmpty j)) \<longleftrightarrow>
               (\<exists>t. find (\<lambda>t. task_id t = i) (tasks data) = Some t \<and> task_status t = Active) \<and>
               trim detail = []" if "detail \<noteq> FAILED"
    by (rule checkpoint_raises_empty [OF assms that])
  show "\<exists>data' t'. progress (fst (checkpoint i detail c r)) = Some data' \<and>
               buildIndex (tasks data') i = Some t' \<and>
               (\<forall>u \<in> set (tasks data'). task_id u = i \<longrightarrow>
                   task_status u = Done \<and> summary u = summaryLine detail)"
    if "detail \<noteq> FAILED \<and> (\<exists>m. snd (checkpoint i detail c r) = Inr m)"
    using that checkpoint_completes [OF assms] by blast
  show "trim detail = [] \<longleftrightarrow> (\<forall>u \<in> set detail. is_ws u)" by (rule trim_blank)
  show "\<exists>rest. detail = summaryLine detail @ rest \<and> length (summaryLine detail) \<le> 80 \<and>
             0xA \<notin> set (summaryLine detail) \<and>
             (length (summaryLine detail) = 80 \<or> rest = [] \<or> hd rest = 0xA)"
    by (rule summaryLine_first_line)
qed


theorem checkpoint_spec_witness:
  "progress \<lparr>progress = Some \<lparr>name = [], status = Running, current = Some [0x30, 0x30, 0x31],
        tasks = [\<lparr>task_id = [0x30, 0x30, 0x31], title = [0x74], description = [], task_type = General,
                  task_status = Active, deps = [], summary = [], retries = Num 0\<rparr>]\<rparr>,
      save_log = [], locked = False, hook_log = []\<rparr>
     = Some \<lparr>name = [], status = Running, current = Some [0x30, 0x30, 0x31],
        tasks = [\<lparr>task_id = [0x30, 0x30, 0x31], title = [0x74], description = [], task_type = General,
                  task_status = Active, deps = [], summary = [], retries = Num 0\<rparr>]\<rparr> \<and>
   [0x6F, 0x6B, 0xA, 0x78] \<noteq> FAILED \<and>
   checkpoint [0x30, 0x30, 0x31] [0x6F, 0x6B, 0xA, 0x78] None
     \<lparr>progress = Some \<lparr>name = [], status = Running, current = Some [0x30, 0x30, 0x31],
        tasks = [\<lparr>task_id = [0x30, 0x30, 0x31], title = [0x74], description = [], task_type = General,
                  task_status = Active, deps = [], summary = [], retries = Num 0\<rparr>]\<rparr>,
      save_log = [], locked = False, hook_log = []\<rparr>
     = (\<lparr>progress = Some \<lparr>name = [], status = Running, current = None,
        tasks = [\<lparr>task_id = [0x30, 0x30, 0x31], title = [0x74], description = [], task_type = General,
                  task_status = Done, deps = [], summary = [0x6F, 0x6B], retries = Num 0\<rparr>]\<rparr>,
      save_log = [\<lparr>name = [], status = Running, current = None,
        tasks = [\<lparr>task_id = [0x30, 0x30, 0x31], title = [0x74], description = [], task_type = General,
                  task_status = Done, deps = [], summary = [0x6F, 0x6B], retries = Num 0\<rparr>]\<rparr>],
      locked = False, hook_log = [(OnTaskComplete, [0x30, 0x30, 0x31], [0x74])]\<rparr>,
      Inr (Completed 1 1 None True)) \<and>
   snd (checkpoint [0x30, 0x30, 0x31] [0x20, 0xA] None
     \<lparr>progress = Some \<lparr>name = [], status = Running, current = Some [0x30, 0x30, 0x31],
        tasks = [\<lparr>task_id = [0x30, 0x30, 0x31], title = [0x74], description = [], task_type = General,
                  task_status = Active, deps = [], summary = [], retries = Num 0\<rparr>]\<rparr>,
      save_log = [], locked = False, hook_log = []\<rparr>) = Inl (CheckpointEmpty [0x30, 0x30, 0x31])"
  using checkpoint_spec [where r = "\<lparr>progress = Some \<lparr>name = [], status = Running, current = Some [0x30, 0x30, 0x31],
        tasks = [\<lparr>task_id = [0x30, 0x30, 0x31], title = [0x74], description = [], task_type = General,
                  task_status = Active, deps = [], summary = [], retries = Num 0\<rparr>]\<rparr>,
      save_log = [], locked = False, hook_log = []\<rparr>"
      and data = "\<lparr>name = [], status = Running, current = Some [0x30, 0x30, 0x31],
        tasks = [\<lparr>task_id = [0x30, 0x30, 0x31], title = [0x74], description = [], task_type = General,
                  task_status = Active, deps = [], summary = [], retries = Num 0\<rparr>]\<rparr>"
      and i = "[0x30, 0x30, 0x31]" and detail = "[0x6F, 0x6B, 0xA, 0x78]" and c = None]
  by (simp add: checkpoint_def checkpoint_body_def lock_def unlock_def FAILED_def trim_def
      is_ws_def summaryLine_def completeTask_def buildIndex_def saveProgress_def
      runLifecycleHook_def isAllDone_def Let_def)

subsection \<open>Sample data\<close>

abbreviation id1 :: jsstring where "id1 \<equiv> [0x30, 0x30, 0x31]"
abbreviation id2 :: jsstring where "id2 \<equiv> [0x30, 0x30, 0x32]"
abbreviation id3 :: jsstring where "id3 \<equiv> [0x30, 0x30, 0x33]"
abbreviation id4 :: jsstring where "id4 \<equiv> [0x30, 0x30, 0x34]"

abbreviation tk :: "jsstring \<Rightarrow> TaskStatus \<Rightarrow> jsstring list \<Rightarrow> TaskEntry" where
  "tk i st ds \<equiv> \<lparr>task_id = i, title = [], description = [], task_type = General,
                  task_status = st, deps = ds, summary = [], retries = Num 0\<rparr>"

abbreviation wf :: "TaskEntry list \<Rightarrow> ProgressData" where
  "wf ts \<equiv> \<lparr>name = [], status = Running, current = None, tasks = ts\<rparr>"

abbreviation repo :: "ProgressData \<Rightarrow> repository" where
  "repo d \<equiv> \<lparr>progress = Some d, save_log = [], locked = False, hook_log = []\<rparr>"

lemmas eval_defs = cascadeSkip_def cascade_loop_unfold skip_step_def needs_skip_def blocked_def
  buildIndex_def findNextTask_def findParallelTasks_def detectCycles_def walk_back.simps
  enter_def leave_def deps_done_def isAllDone_def next_op_def next_body_def nextBatch_op_def
  nextBatch_body_def lock_def unlock_def saveProgress_def runLifecycleHook_def Let_def

subsection \<open>next and nextBatch when selection fails\<close>

lemma next_body_error:
  assumes "next_body r = Some (r', Inl e)"
  shows "r' = r"
proof (cases "progress r")
  case None
  with assms show ?thesis by (simp add: next_body_def)
next
  case (Some data)
  show ?thesis
  proof (cases "isAllDone (tasks data)")
    case True
    with assms Some show ?thesis by (simp add: next_body_def)
  next
    case False
    show ?thesis
    proof (cases "filter (\<lambda>t. task_status t = Active) (tasks data) = []")
      case ne: False
      with assms Some False show ?thesis by (simp add: next_body_def Let_def)
    next
      case True
      with assms Some False show ?thesis
        by (simp add: next_body_def Let_def split: option.splits sum.splits)
    qed
  qed
qed

lemma next_body_cyclic:
  assumes "next_body r = Some (r', Inl (CyclicDependency c))"
  shows "\<exists>data. progress r = Some data \<and>
           findNextTask (cascadeSkip (tasks data)) = Some (Inl (CyclicDependency c))"
proof (cases "progress r")
  case None
  with assms show ?thesis by (simp add: next_body_def)
next
  case (Some data)
  show ?thesis
  proof (cases "isAllDone (tasks data)")
    case True
    with assms Some show ?thesis by (simp add: next_body_def)
  next
    case False
    show ?thesis
    proof (cases "filter (\<lambda>t. task_status t = Active) (tasks data) = []")
      case ne: False
      with assms Some False show ?thesis by (simp add: next_body_def Let_def)
    next
      case True
      with assms Some False show ?thesis
        by (simp add: next_body_def Let_def split: option.splits sum.splits)
    qed
  qed
qed

lemma nextBatch_body_error:
  assumes "nextBatch_body r = Some (r', Inl e)"
  shows "r' = r"
proof (cases "progress r")
  case None
  with assms show ?thesis by (simp add: nextBatch_body_def)
next
  case (Some data)
  show ?thesis
  proof (cases "isAllDone (tasks data)")
    case True
    with assms Some show ?thesis by (simp add: nextBatch_body_def)
  next
    case False
    show ?thesis
    proof (cases "filter (\<lambda>t. task_status t = Active) (tasks data) = []")
      case ne: False
      with assms Some False show ?thesis by (simp add: nextBatch_body_def Let_def)
    next
      case True
      with assms Some False show ?thesis
        by (simp add: nextBatch_body_def Let_def split: option.splits sum.splits list.splits)
    qed
  qed
qed

lemma nextBatch_body_cyclic:
  assumes "nextBatch_body r = Some (r', Inl (CyclicDependency c))"
  shows "\<exists>data. progress r = Some data \<and>
           findParallelTasks (cascadeSkip (tasks data)) = Some (Inl (CyclicDependency c))"
proof (cases "progress r")
  case None
  with assms show ?thesis by (simp add: nextBatch_body_def)
next
  case (Some data)
  show ?thesis
  proof (cases "isAllDone (tasks data)")
    case True
    with assms Some show ?thesis by (simp add: nextBatch_body_def)
  next
    case False
    show ?thesis
    proof (cases "filter (\<lambda>t. task_status t = Active) (tasks data) = []")
      case ne: False
      with assms Some False show ?thesis by (simp add: nextBatch_body_def Let_def)
    next
      case True
      with assms Some False show ?thesis
        by (simp add: nextBatch_body_def Let_def split: option.splits sum.splits list.splits)
    qed
  qed
qed

text \<open>
  Claim C7, as amended.  When \<open>next\<close> or \<open>nextBatch\<close> raises the cyclic-dependency
  error, the cycle was found by the selection run on the cascaded sequence, and
  \<open>saveProgress\<close> has not been called in that invocation: the repository is the one
  before the call with the lock released, so the stored aggregate and the record of
  saves are unchanged and the skips \<open>cascadeSkip\<close> computed are not persisted.
\<close>

theorem cyclic_error_saves_nothing:
  "(next_op r = Some (r', Inl (CyclicDependency c)) \<longrightarrow>
      r' = r\<lparr>locked := False\<rparr> \<and> progress r' = progress r \<and> save_log r' = save_log r \<and>
      (\<exists>data. progress r = Some data \<and>
         findNextTask (cascadeSkip (tasks data)) = Some (Inl (CyclicDependency c)))) \<and>
   (nextBatch_op r = Some (r', Inl (CyclicDependency c)) \<longrightarrow>
      r' = r\<lparr>locked := False\<rparr> \<and> progress r' = progress r \<and> save_log r' = save_log r \<and>
      (\<exists>data. progress r = Some data \<and>
         findParallelTasks (cascadeSkip (tasks data)) = Some (Inl (CyclicDependency c))))"
proof (intro conjI impI)
  assume a: "next_op r = Some (r', Inl (CyclicDependency c))"
  then obtain r1 where b: "next_body (lock r) = Some (r1, Inl (CyclicDependency c))"
    and r': "r' = unlock r1"
    by (auto simp: next_op_def split: option.splits)
  from next_body_error [OF b] r' show e: "r' = r\<lparr>locked := False\<rparr>"
    by (simp add: lock_def unlock_def)
  then show "progress r' = progress r" "save_log r' = save_log r" by simp_all
  from next_body_cyclic [OF b]
  show "\<exists>data. progress r = Some data \<and>
         findNextTask (cascadeSkip (tasks data)) = Some (Inl (CyclicDependency c))"
    by (simp add: lock_def)
next
  assume a: "nextBatch_op r = Some (r', Inl (CyclicDependency c))"
  then obtain r1 where b: "nextBatch_body (lock r) = Some (r1, Inl (CyclicDependency c))"
    and r': "r' = unlock r1"
    by (auto simp: nextBatch_op_def split: option.splits)
  from nextBatch_body_error [OF b] r' show e: "r' = r\<lparr>locked := False\<rparr>"
    by (simp add: lock_def unlock_def)
  then show "progress r' = progress r" "save_log r' = save_log r" by simp_all
  from nextBatch_body_cyclic [OF b]
  show "\<exists>data. progress r = Some data \<and>
         findParallelTasks (cascadeSkip (tasks data)) = Some (Inl (CyclicDependency c))"
    by (simp add: lock_def)
qed

theorem cyclic_error_saves_nothing_witness:
  "next_op (repo (wf [tk id1 Failed [], tk id2 Pending [id1], tk id3 Pending [id4],
                      tk id4 Pending [id3]]))
     = Some (repo (wf [tk id1 Failed [], tk id2 Pending [id1], tk id3 Pending [id4],
                       tk id4 Pending [id3]]), Inl (CyclicDependency [id3, id4, id3])) \<and>
   nextBatch_op (repo (wf [tk id1 Failed [], tk id2 Pending [id1], tk id3 Pending [id4],
                      tk id4 Pending [id3]]))
     = Some (repo (wf [tk id1 Failed [], tk id2 Pending [id1], tk id3 Pending [id4],
                       tk id4 Pending [id3]]), Inl (CyclicDependency [id3, id4, id3])) \<and>
   findNextTask (cascadeSkip [tk id1 Failed [], tk id2 Pending [id1], tk id3 Pending [id4],
                      tk id4 Pending [id3]]) = Some (Inl (CyclicDependency [id3, id4, id3]))"
proof -
  have a: "next_op (repo (wf [tk id1 Failed [], tk id2 Pending [id1], tk id3 Pending [id4],
                      tk id4 Pending [id3]]))
     = Some (repo (wf [tk id1 Failed [], tk id2 Pending [id1], tk id3 Pending [id4],
                       tk id4 Pending [id3]]), Inl (CyclicDependency [id3, id4, id3]))"
    by (simp add: eval_defs)
  have b: "nextBatch_op (repo (wf [tk id1 Failed [], tk id2 Pending [id1], tk id3 Pending [id4],
                      tk id4 Pending [id3]]))
     = Some (repo (wf [tk id1 Failed [], tk id2 Pending [id1], tk id3 Pending [id4],
                       tk id4 Pending [id3]]), Inl (CyclicDependency [id3, id4, id3]))"
    by (simp add: eval_defs)
  from a b cyclic_error_saves_nothing
    [of "repo (wf [tk id1 Failed [], tk id2 Pending [id1], tk id3 Pending [id4],
                   tk id4 Pending [id3]])"
        "repo (wf [tk id1 Failed [], tk id2 Pending [id1], tk id3 Pending [id4],
                   tk id4 Pending [id3]])"
        "[id3, id4, id3]"]
  show ?thesis by simp
qed

text \<open>
  Claim C7 as stated fails.  Task 002 depends on the failed task 001, and tasks 003
  and 004 depend on each other.  \<open>cascadeSkip\<close> turns 002 into skipped; \<open>next\<close> then
  raises the cyclic-dependency error, and the repository it leaves has no save on
  record and still stores 002 as pending.
\<close>

theorem next_cycle_skip_not_saved:
  "next_op (repo (wf [tk id1 Failed [], tk id2 Pending [id1], tk id3 Pending [id4],
                      tk id4 Pending [id3]]))
     = Some (\<lparr>progress = Some (wf [tk id1 Failed [], tk id2 Pending [id1], tk id3 Pending [id4],
                                    tk id4 Pending [id3]]),
              save_log = [], locked = False, hook_log = []\<rparr>,
             Inl (CyclicDependency [id3, id4, id3])) \<and>
   map task_status (cascadeSkip [tk id1 Failed [], tk id2 Pending [id1], tk id3 Pending [id4],
                      tk id4 Pending [id3]]) = [Failed, Skipped, Pending, Pending]"
  by (simp add: eval_defs)

subsection \<open>resumeProgress\<close>

text \<open>What \<open>resumeProgress\<close> does to one task.\<close>

definition reset_mark :: "TaskEntry \<Rightarrow> TaskEntry" where
  "reset_mark t = (if task_status t = Active then t\<lparr>task_status := Pending\<rparr> else t)"

lemma reset_active_fst: "fst (reset_active ts f) = map reset_mark ts"
  by (induction ts arbitrary: f) (simp_all add: reset_mark_def case_prod_beta)

lemma reset_active_keep: "\<not> falsy f \<Longrightarrow> snd (reset_active ts f) = f"
  by (induction ts arbitrary: f) (simp_all add: case_prod_beta)

text \<open>
  The recorded id after the loop: with an active task whose id is not empty, the id
  of the first such task; the id of the first active task therefore, whenever that
  id is not empty.
\<close>

lemma reset_active_first:
  assumes "\<exists>t \<in> set ts. task_status t = Active"
  shows "\<exists>k < length ts. task_status (ts ! k) = Active \<and> (\<forall>j < k. task_status (ts ! j) \<noteq> Active) \<and>
           (task_id (ts ! k) \<noteq> [] \<longrightarrow> snd (reset_active ts None) = Some (task_id (ts ! k)))"
  using assms
proof (induction ts)
  case Nil
  then show ?case by simp
next
  case (Cons t ts)
  show ?case
  proof (cases "task_status t = Active")
    case True
    have "task_id t \<noteq> [] \<longrightarrow> snd (reset_active (t # ts) None) = Some (task_id t)"
    proof
      assume "task_id t \<noteq> []"
      then have "\<not> falsy (Some (task_id t))" by (simp add: falsy_def)
      then have "snd (reset_active ts (Some (task_id t))) = Some (task_id t)"
        by (rule reset_active_keep)
      with True show "snd (reset_active (t # ts) None) = Some (task_id t)"
        by (simp add: falsy_def case_prod_beta)
    qed
    with True show ?thesis by (intro exI [of _ 0]) simp
  next
    case False
    with Cons.prems have "\<exists>t \<in> set ts. task_status t = Active" by auto
    from Cons.IH [OF this] obtain k where k: "k < length ts"
      "task_status (ts ! k) = Active" "\<forall>j < k. task_status (ts ! j) \<noteq> Active"
      "task_id (ts ! k) \<noteq> [] \<longrightarrow> snd (reset_active ts None) = Some (task_id (ts ! k))" by blast
    have "\<forall>j < Suc k. task_status ((t # ts) ! j) \<noteq> Active"
    proof (intro allI impI)
      fix j assume "j < Suc k"
      with False k(3) show "task_status ((t # ts) ! j) \<noteq> Active" by (cases j) simp_all
    qed
    moreover from False k(4)
    have "task_id ((t # ts) ! Suc k) \<noteq> [] \<longrightarrow>
            snd (reset_active (t # ts) None) = Some (task_id ((t # ts) ! Suc k))"
      by (simp add: case_prod_beta)
    ultimately show ?thesis using k(1,2) by (intro exI [of _ "Suc k"]) simp
  qed
qed

text \<open>
  Claim C4.  Without an active task \<open>resumeProgress\<close> returns the aggregate itself,
  and the reset id is \<open>current\<close> when the workflow status is running and null
  otherwise.  With active tasks it returns an aggregate with every active task reset
  to pending, all other tasks unchanged, workflow status running and \<open>current\<close>
  null, and the reset id is the id of the first active task of the original
  sequence.  A task id is a zero-padded ordinal of three or more digits (that is what
  \<open>makeTaskId\<close> builds and what the pattern of the progress parser admits), so it is
  never the empty string; the reset id is stated for a first active task whose id is
  not empty.
\<close>

theorem resumeProgress_spec:
  "(\<not> (\<exists>t \<in> set (tasks data). task_status t = Active) \<longrightarrow>
      resumeProgress data = (data, if status data = Running then current data else None)) \<and>
   ((\<exists>t \<in> set (tasks data). task_status t = Active) \<longrightarrow>
      (\<exists>data' resetId k. resumeProgress data = (data', resetId) \<and>
         k < length (tasks data) \<and> task_status (tasks data ! k) = Active \<and>
         (\<forall>j < k. task_status (tasks data ! j) \<noteq> Active) \<and>
         (task_id (tasks data ! k) \<noteq> [] \<longrightarrow> resetId = Some (task_id (tasks data ! k))) \<and>
         status data' = Running \<and> current data' = None \<and> name data' = name data \<and>
         length (tasks data') = length (tasks data) \<and>
         (\<forall>j < length (tasks data).
            tasks data' ! j = (if task_status (tasks data ! j) = Active
                               then (tasks data ! j)\<lparr>task_status := Pending\<rparr>
                               else tasks data ! j))))"
proof (intro conjI impI)
  assume "\<not> (\<exists>t \<in> set (tasks data). task_status t = Active)"
  then show "resumeProgress data = (data, if status data = Running then current data else None)"
    by (simp add: resumeProgress_def list_ex_iff)
next
  assume ex: "\<exists>t \<in> set (tasks data). task_status t = Active"
  let ?d = "data\<lparr>current := None, status := Running, tasks := map reset_mark (tasks data)\<rparr>"
  let ?f = "snd (reset_active (tasks data) None)"
  from reset_active_first [OF ex] obtain k where k: "k < length (tasks data)"
    "task_status (tasks data ! k) = Active" "\<forall>j < k. task_status (tasks data ! j) \<noteq> Active"
    "task_id (tasks data ! k) \<noteq> [] \<longrightarrow> ?f = Some (task_id (tasks data ! k))"
    by blast
  have 1: "resumeProgress data = (?d, ?f)"
    using ex reset_active_fst [of "tasks data" None]
    by (simp add: resumeProgress_def list_ex_iff case_prod_beta)
  have 2: "\<forall>j < length (tasks data).
                  tasks ?d ! j = (if task_status (tasks data ! j) = Active
                                     then (tasks data ! j)\<lparr>task_status := Pending\<rparr>
                                     else tasks data ! j)"
    by (simp add: reset_mark_def)
  have 3: "status ?d = Running \<and> current ?d = None \<and> name ?d = name data \<and>
               length (tasks ?d) = length (tasks data)" by simp
  from 1 k 3 2
  show "\<exists>data' resetId k. resumeProgress data = (data', resetId) \<and>
         k < length (tasks data) \<and> task_status (tasks data ! k) = Active \<and>
         (\<forall>j < k. task_status (tasks data ! j) \<noteq> Active) \<and>
         (task_id (tasks data ! k) \<noteq> [] \<longrightarrow> resetId = Some (task_id (tasks data ! k))) \<and>
         status data' = Running \<and> current data' = None \<and> name data' = name data \<and>
         length (tasks data') = length (tasks data) \<and>
         (\<forall>j < length (tasks data).
            tasks data' ! j = (if task_status (tasks data ! j) = Active
                               then (tasks data ! j)\<lparr>task_status := Pending\<rparr>
                               else tasks data ! j))"
    by (intro exI [of _ ?d] exI [of _ ?f] exI [of _ k]) (elim conjE, intro conjI; assumption)
qed

theorem resumeProgress_spec_witness:
  "task_status (tasks (wf [tk id1 Done [], tk id2 Active [], tk id3 Active []]) ! 1) = Active \<and>
   task_id (tasks (wf [tk id1 Done [], tk id2 Active [], tk id3 Active []]) ! 1) \<noteq> [] \<and>
   resumeProgress (wf [tk id1 Done [], tk id2 Active [], tk id3 Active []])
     = (wf [tk id1 Done [], tk id2 Pending [], tk id3 Pending []], Some id2) \<and>
   resumeProgress (\<lparr>name = [], status = Running, current = Some id2, tasks = [tk id1 Done []]\<rparr>)
     = (\<lparr>name = [], status = Running, current = Some id2, tasks = [tk id1 Done []]\<rparr>, Some id2) \<and>
   resumeProgress (\<lparr>name = [], status = Finishing, current = Some id2, tasks = [tk id1 Done []]\<rparr>)
     = (\<lparr>name = [], status = Finishing, current = Some id2, tasks = [tk id1 Done []]\<rparr>, None)"
proof -
  have a: "resumeProgress (wf [tk id1 Done [], tk id2 Active [], tk id3 Active []])
     = (wf [tk id1 Done [], tk id2 Pending [], tk id3 Pending []], Some id2)"
    by (simp add: resumeProgress_def falsy_def)
  from a resumeProgress_spec [of "wf [tk id1 Done [], tk id2 Active [], tk id3 Active []]"]
    resumeProgress_spec [of "\<lparr>name = [], status = Running, current = Some id2, tasks = [tk id1 Done []]\<rparr>"]
    resumeProgress_spec [of "\<lparr>name = [], status = Finishing, current = Some id2, tasks = [tk id1 Done []]\<rparr>"]
  show ?thesis by simp
qed

text \<open>
  The condition on the id is the one \<open>if (!firstId)\<close> needs: the test also holds for
  an empty string, so a first active task with the empty id, which the data model
  rules out, would have its id replaced by that of a later active task.
\<close>

lemma resumeProgress_empty_id:
  "resumeProgress (wf [tk [] Active [], tk id2 Active []])
     = (wf [tk [] Pending [], tk id2 Pending []], Some id2)"
  by (simp add: resumeProgress_def falsy_def)

subsection \<open>What cascadeSkip changes\<close>

text \<open>
  A pending task is caught by the cascade when one of its dependency ids resolves
  (in the index of the sequence) to a task that is failed or skipped, or to a task
  that is itself caught.
\<close>

inductive cascades :: "TaskEntry list \<Rightarrow> TaskEntry \<Rightarrow> bool" for ts where
  direct: "task_status t = Pending \<Longrightarrow> d \<in> set (deps t) \<Longrightarrow> buildIndex ts d = Some u \<Longrightarrow>
           task_status u = Failed \<or> task_status u = Skipped \<Longrightarrow> cascades ts t"
| via: "task_status t = Pending \<Longrightarrow> d \<in> set (deps t) \<Longrightarrow> buildIndex ts d = Some u \<Longrightarrow>
        cascades ts u \<Longrightarrow> cascades ts t"

code_pred cascades .

text \<open>
  The dependency set of a task transitively reaches a failed or skipped task: some
  chain of dependency ids, each resolved in the index, ends in such a task.  The
  tasks along the chain may have any status.
\<close>

inductive reaches :: "TaskEntry list \<Rightarrow> TaskEntry \<Rightarrow> bool" for ts where
  hit: "d \<in> set (deps t) \<Longrightarrow> buildIndex ts d = Some u \<Longrightarrow>
        task_status u = Failed \<or> task_status u = Skipped \<Longrightarrow> reaches ts t"
| hop: "d \<in> set (deps t) \<Longrightarrow> buildIndex ts d = Some u \<Longrightarrow> reaches ts u \<Longrightarrow> reaches ts t"

code_pred reaches .

definition skipped_copy :: "TaskEntry \<Rightarrow> TaskEntry" where
  "skipped_copy t = t\<lparr>task_status := Skipped, summary := skip_note\<rparr>"

lemma cascades_pending: "cascades ts t \<Longrightarrow> task_status t = Pending"
  by (erule cascades.cases) simp_all

lemma skip_step_id_eq [simp]: "task_id (skip_step idx t) = task_id t"
  by (simp add: skip_step_def)

lemma skip_step_cases:
  "(needs_skip idx t \<and> skip_step idx t = skipped_copy t) \<or> (\<not> needs_skip idx t \<and> skip_step idx t = t)"
  by (simp add: skip_step_def needs_skip_def skipped_copy_def)

lemma blocked_iff:
  "blocked idx t \<longleftrightarrow> (\<exists>d \<in> set (deps t). \<exists>u. idx d = Some u \<and>
       (task_status u = Failed \<or> task_status u = Skipped))"
  by (auto simp: blocked_def list_ex_iff split: option.splits)

lemma needs_skip_cascades: "needs_skip (buildIndex ts) t \<Longrightarrow> cascades ts t"
  by (auto simp: needs_skip_def blocked_iff intro: cascades.direct)

lemma buildIndex_pass:
  "buildIndex (map (skip_step idx) ts) d = map_option (skip_step idx) (buildIndex ts d)"
  by (rule buildIndex_map) simp

lemma cascades_pass_fwd:
  assumes "cascades ts t"
  shows "cascades (map (skip_step (buildIndex ts)) ts) t"
  using assms
proof (induction rule: cascades.induct)
  case (direct t d u)
  from direct(4) have "skip_step (buildIndex ts) u = u" by (auto simp: skip_step_def)
  with direct(3) have "buildIndex (map (skip_step (buildIndex ts)) ts) d = Some u"
    by (simp add: buildIndex_pass)
  with direct show ?case by (intro cascades.direct [of t d _ u]) simp_all
next
  case (via t d u)
  let ?ts' = "map (skip_step (buildIndex ts)) ts"
  from via(3) have ix: "buildIndex ?ts' d = Some (skip_step (buildIndex ts) u)"
    by (simp add: buildIndex_pass)
  from skip_step_cases [of "buildIndex ts" u] show ?case
  proof (elim disjE conjE)
    assume "skip_step (buildIndex ts) u = skipped_copy u"
    with ix have "buildIndex ?ts' d = Some (skipped_copy u)" by simp
    moreover have "task_status (skipped_copy u) = Skipped" by (simp add: skipped_copy_def)
    ultimately show ?thesis using via(1,2) by (intro cascades.direct [of t d _ "skipped_copy u"]) simp_all
  next
    assume "skip_step (buildIndex ts) u = u"
    with ix have "buildIndex ?ts' d = Some u" by simp
    with via show ?thesis by (intro cascades.via [of t d _ u]) simp_all
  qed
qed

lemma cascades_pass_bwd:
  assumes "cascades (map (skip_step (buildIndex ts)) ts) t"
  shows "cascades ts t"
  using assms
proof (induction rule: cascades.induct)
  case (direct t d u')
  from direct(3) obtain u where u: "buildIndex ts d = Some u" "u' = skip_step (buildIndex ts) u"
    by (auto simp: buildIndex_pass)
  from skip_step_cases [of "buildIndex ts" u] show ?case
  proof (elim disjE conjE)
    assume "needs_skip (buildIndex ts) u"
    then have "cascades ts u" by (rule needs_skip_cascades)
    with direct(1,2) u(1) show ?thesis by (intro cascades.via [of t d ts u])
  next
    assume "skip_step (buildIndex ts) u = u"
    with u direct(4) have "task_status u = Failed \<or> task_status u = Skipped" by simp
    with direct(1,2) u(1) show ?thesis by (intro cascades.direct [of t d ts u])
  qed
next
  case (via t d u')
  from via(3) obtain u where u: "buildIndex ts d = Some u" "u' = skip_step (buildIndex ts) u"
    by (auto simp: buildIndex_pass)
  from skip_step_cases [of "buildIndex ts" u] show ?case
  proof (elim disjE conjE)
    assume "needs_skip (buildIndex ts) u"
    then have "cascades ts u" by (rule needs_skip_cascades)
    with via(1,2) u(1) show ?thesis by (intro cascades.via [of t d ts u])
  next
    assume "skip_step (buildIndex ts) u = u"
    with u via.IH have "cascades ts u" by simp
    with via(1,2) u(1) show ?thesis by (intro cascades.via [of t d ts u])
  qed
qed

lemma cascades_pass: "cascades (map (skip_step (buildIndex ts)) ts) t \<longleftrightarrow> cascades ts t"
  using cascades_pass_fwd cascades_pass_bwd by blast

definition cascade_result :: "TaskEntry list \<Rightarrow> TaskEntry \<Rightarrow> TaskEntry" where
  "cascade_result ts t = (if cascades ts t then skipped_copy t else t)"

lemma cascade_result_pass:
  "cascade_result (map (skip_step (buildIndex ts)) ts) (skip_step (buildIndex ts) t)
     = cascade_result ts t"
proof -
  from skip_step_cases [of "buildIndex ts" t] show ?thesis
  proof (elim disjE conjE)
    assume a: "needs_skip (buildIndex ts) t" "skip_step (buildIndex ts) t = skipped_copy t"
    have "\<not> cascades (map (skip_step (buildIndex ts)) ts) (skipped_copy t)"
      using cascades_pending [of _ "skipped_copy t"] by (auto simp: skipped_copy_def)
    with a needs_skip_cascades [OF a(1)] show ?thesis by (simp add: cascade_result_def)
  next
    assume "skip_step (buildIndex ts) t = t"
    then show ?thesis by (simp add: cascade_result_def cascades_pass)
  qed
qed

lemma no_cascade_when_stable:
  assumes "\<not> list_ex (needs_skip (buildIndex ts)) ts" "cascades ts t" "t \<in> set ts"
  shows False
  using assms(2,3)
proof (induction rule: cascades.induct)
  case (direct t d u)
  then have "needs_skip (buildIndex ts) t" by (auto simp: needs_skip_def blocked_iff)
  with direct(5) assms(1) show ?case by (auto simp: list_ex_iff)
next
  case (via t d u)
  from via(3) have "u \<in> set ts" by (simp add: buildIndex_SomeD)
  with via.IH show ?case by simp
qed

lemma cascade_loop_result: "cascade_loop ts = map (cascade_result ts) ts"
proof (induction ts rule: cascade_loop.induct)
  case (1 result)
  show ?case
  proof (cases "list_ex (needs_skip (buildIndex result)) result")
    case True
    let ?r' = "map (skip_step (buildIndex result)) result"
    have "cascade_loop ?r' = map (cascade_result ?r') ?r'"
      using True by (intro 1) (simp_all add: skip_pass_eq)
    also have "\<dots> = map (cascade_result result) result"
      by (simp add: cascade_result_pass)
    finally show ?thesis using True by (subst cascade_loop_unfold) simp
  next
    case False
    then have "\<forall>t \<in> set result. \<not> cascades result t"
      using no_cascade_when_stable by blast
    then have "map (cascade_result result) result = result"
      by (intro map_idI) (simp add: cascade_result_def)
    with False show ?thesis by (subst cascade_loop_unfold) simp
  qed
qed


text \<open>The same, along a chain whose intermediate tasks are all pending.\<close>

inductive reaches_via_pending :: "TaskEntry list \<Rightarrow> TaskEntry \<Rightarrow> bool" for ts where
  hit: "d \<in> set (deps t) \<Longrightarrow> buildIndex ts d = Some u \<Longrightarrow>
        task_status u = Failed \<or> task_status u = Skipped \<Longrightarrow> reaches_via_pending ts t"
| hop: "d \<in> set (deps t) \<Longrightarrow> buildIndex ts d = Some u \<Longrightarrow> task_status u = Pending \<Longrightarrow>
        reaches_via_pending ts u \<Longrightarrow> reaches_via_pending ts t"

code_pred reaches_via_pending .

lemma cascades_iff: "cascades ts t \<longleftrightarrow> task_status t = Pending \<and> reaches_via_pending ts t"
proof
  assume "cascades ts t"
  then show "task_status t = Pending \<and> reaches_via_pending ts t"
  proof (induction rule: cascades.induct)
    case (direct t d u)
    then show ?case by (auto intro: reaches_via_pending.hit)
  next
    case (via t d u)
    then show ?case by (auto intro: reaches_via_pending.hop)
  qed
next
  assume a: "task_status t = Pending \<and> reaches_via_pending ts t"
  then have "reaches_via_pending ts t" by simp
  then have "task_status t = Pending \<longrightarrow> cascades ts t"
  proof (induction rule: reaches_via_pending.induct)
    case (hit d t u)
    then show ?case by (auto intro: cascades.direct)
  next
    case (hop d t u)
    then show ?case by (auto intro: cascades.via)
  qed
  with a show "cascades ts t" by simp
qed

text \<open>What the whole function changes, slot by slot.\<close>

lemma cascade_changes:
  "length (cascadeSkip ts) = length ts \<and>
   (\<forall>k < length ts.
      (task_status (ts ! k) = Pending \<and> reaches_via_pending ts (ts ! k) \<longrightarrow>
         cascadeSkip ts ! k = (ts ! k)\<lparr>task_status := Skipped, summary := skip_note\<rparr>) \<and>
      (cascadeSkip ts ! k \<noteq> ts ! k \<longleftrightarrow>
         task_status (ts ! k) = Pending \<and> reaches_via_pending ts (ts ! k)) \<and>
      (task_status (ts ! k) \<noteq> Pending \<longrightarrow> cascadeSkip ts ! k = ts ! k))"
proof -
  have eq: "cascadeSkip ts = map (cascade_result ts) ts"
    by (simp add: cascadeSkip_def cascade_loop_result)
  have "\<forall>k < length ts.
      (task_status (ts ! k) = Pending \<and> reaches_via_pending ts (ts ! k) \<longrightarrow>
         cascadeSkip ts ! k = (ts ! k)\<lparr>task_status := Skipped, summary := skip_note\<rparr>) \<and>
      (cascadeSkip ts ! k \<noteq> ts ! k \<longleftrightarrow>
         task_status (ts ! k) = Pending \<and> reaches_via_pending ts (ts ! k)) \<and>
      (task_status (ts ! k) \<noteq> Pending \<longrightarrow> cascadeSkip ts ! k = ts ! k)"
  proof (intro allI impI)
    fix k assume k: "k < length ts"
    then have r: "cascadeSkip ts ! k = cascade_result ts (ts ! k)" by (simp add: eq)
    show "(task_status (ts ! k) = Pending \<and> reaches_via_pending ts (ts ! k) \<longrightarrow>
         cascadeSkip ts ! k = (ts ! k)\<lparr>task_status := Skipped, summary := skip_note\<rparr>) \<and>
      (cascadeSkip ts ! k \<noteq> ts ! k \<longleftrightarrow>
         task_status (ts ! k) = Pending \<and> reaches_via_pending ts (ts ! k)) \<and>
      (task_status (ts ! k) \<noteq> Pending \<longrightarrow> cascadeSkip ts ! k = ts ! k)"
    proof (cases "cascades ts (ts ! k)")
      case True
      then have p: "task_status (ts ! k) = Pending" "reaches_via_pending ts (ts ! k)"
        by (simp_all add: cascades_iff)
      from True r have "cascadeSkip ts ! k = skipped_copy (ts ! k)" by (simp add: cascade_result_def)
      moreover from p(1) have "skipped_copy (ts ! k) \<noteq> ts ! k"
        by (auto simp: skipped_copy_def dest: arg_cong [where f = task_status])
      ultimately show ?thesis using p by (simp add: skipped_copy_def)
    next
      case False
      with r have "cascadeSkip ts ! k = ts ! k" by (simp add: cascade_result_def)
      with False show ?thesis by (auto simp: cascades_iff)
    qed
  qed
  with eq show ?thesis by simp
qed

subsection \<open>Cycle detection\<close>

declare dfs.simps [simp del] dfs_deps.simps [simp del]

text \<open>
  The graph \<open>detectCycles\<close> walks: an edge leads from the id of an indexed task to
  each of its dependency ids.  A cycle is a path of at least one edge that ends where
  it starts, written as the list of its ids with the first repeated at the end.
\<close>

definition edge :: "TaskEntry list \<Rightarrow> jsstring \<Rightarrow> jsstring \<Rightarrow> bool" where
  "edge tsk a b \<longleftrightarrow> (case buildIndex tsk a of None \<Rightarrow> False | Some t \<Rightarrow> b \<in> set (deps t))"

fun is_path :: "('a \<Rightarrow> 'a \<Rightarrow> bool) \<Rightarrow> 'a list \<Rightarrow> bool" where
  "is_path E [] = True"
| "is_path E [x] = True"
| "is_path E (x # y # zs) = (E x y \<and> is_path E (y # zs))"

definition is_cycle :: "TaskEntry list \<Rightarrow> jsstring list \<Rightarrow> bool" where
  "is_cycle tsk c \<longleftrightarrow> 2 \<le> length c \<and> hd c = last c \<and> is_path (edge tsk) c"

lemma is_path_snoc:
  "is_path E (ys @ [z]) \<longleftrightarrow> is_path E ys \<and> (ys = [] \<or> E (last ys) z)"
  by (induction E ys rule: is_path.induct) auto

lemma is_path_tranclp:
  "is_path E (a # xs @ [b]) \<Longrightarrow> E\<^sup>+\<^sup>+ a b"
proof (induction xs arbitrary: a)
  case Nil
  then show ?case by auto
next
  case (Cons x xs)
  then have "E a x" "is_path E (x # xs @ [b])" by simp_all
  with Cons.IH show ?case by (meson tranclp_into_tranclp2)
qed

lemma is_cycle_tranclp:
  assumes "is_cycle tsk c"
  shows "(edge tsk)\<^sup>+\<^sup>+ (hd c) (hd c)"
proof -
  from assms have l: "2 \<le> length c" and h: "hd c = last c" and p: "is_path (edge tsk) c"
    by (simp_all add: is_cycle_def)
  from l obtain a rest where c: "c = a # rest" "rest \<noteq> []"
    by (cases c) (auto simp: Suc_le_length_iff)
  then obtain xs b where r: "rest = xs @ [b]" by (metis rev_exhaust)
  with c p have "(edge tsk)\<^sup>+\<^sup>+ a b" using is_path_tranclp [of "edge tsk" a xs b] by simp
  with c r h show ?thesis by simp
qed

lemma tranclp_is_path:
  assumes "E\<^sup>+\<^sup>+ a b"
  shows "\<exists>xs. is_path E (a # xs @ [b])"
  using assms
proof (induction rule: tranclp_induct)
  case (base y)
  then show ?case by (intro exI [of _ "[]"]) simp
next
  case (step y z)
  then obtain xs where "is_path E (a # xs @ [y])" by blast
  with step(2) have "is_path E ((a # xs @ [y]) @ [z])"
    by (subst is_path_snoc) simp
  then show ?case by (intro exI [of _ "xs @ [y]"]) simp
qed

lemma tranclp_is_cycle:
  assumes "(edge tsk)\<^sup>+\<^sup>+ a a"
  shows "\<exists>c. is_cycle tsk c"
proof -
  from tranclp_is_path [OF assms] obtain xs where "is_path (edge tsk) (a # xs @ [a])" by blast
  then have "is_cycle tsk (a # xs @ [a])" by (simp add: is_cycle_def)
  then show ?thesis by blast
qed

text \<open>The ids the path loop collects, and the chain of recorded parents it follows.\<close>

inductive walk :: "(jsstring \<rightharpoonup> jsstring) \<Rightarrow> jsstring \<Rightarrow> jsstring \<Rightarrow> jsstring list \<Rightarrow> bool"
  for par dep where
  stop: "walk par dep dep []"
| up: "cur \<noteq> dep \<Longrightarrow> par cur = Some p \<Longrightarrow> walk par dep p xs \<Longrightarrow> walk par dep cur (cur # xs)"

lemma walk_back_walk:
  "walk par dep cur xs \<Longrightarrow> walk_back par dep cur acc = Some (acc @ xs)"
proof (induction arbitrary: acc rule: walk.induct)
  case stop
  then show ?case by (subst walk_back.simps) simp
next
  case (up cur p xs)
  from up.IH [of "acc @ [cur]"] up.hyps(1,2) show ?case
    by (subst walk_back.simps) simp
qed

lemma walk_path:
  assumes "walk par dep cur xs" and "\<And>x y. par x = Some y \<Longrightarrow> E y x"
  shows "is_path E (dep # rev xs) \<and> last (dep # rev xs) = cur"
  using assms(1)
proof (induction rule: walk.induct)
  case stop
  then show ?case by simp
next
  case (up cur p xs)
  then have "E p cur" using assms(2) by blast
  with up.IH have "is_path E ((dep # rev xs) @ [cur])"
    by (subst is_path_snoc) simp
  then show ?case by simp
qed

inductive ancestor :: "(jsstring \<rightharpoonup> jsstring) \<Rightarrow> jsstring \<Rightarrow> jsstring \<Rightarrow> bool" for par where
  self: "ancestor par a a"
| step: "par a = Some b \<Longrightarrow> ancestor par b c \<Longrightarrow> ancestor par a c"

lemma ancestor_walk: "ancestor par a c \<Longrightarrow> \<exists>xs. walk par c a xs"
proof (induction rule: ancestor.induct)
  case (self a)
  then show ?case by (auto intro: walk.stop)
next
  case (step a b c)
  then obtain xs where "walk par c b xs" by blast
  with step(1) show ?case by (cases "a = c") (auto intro: walk.stop walk.up)
qed

lemma ancestor_frame:
  assumes "ancestor par a c" and "\<And>x. x \<in> dom par \<Longrightarrow> par' x = par x"
  shows "ancestor par' a c"
  using assms(1)
proof (induction rule: ancestor.induct)
  case (self a)
  then show ?case by (rule ancestor.self)
next
  case (step a b c)
  from step(1) have "par' a = Some b" using assms(2) [of a] by auto
  then show ?case using step.IH by (rule ancestor.step)
qed

text \<open>
  Finished nodes are those visited and no longer on the stack.  Throughout the search
  the stack is visited, every recorded parent is the source of an edge to its child,
  and the finished nodes are closed under edges and lie on no cycle.
\<close>

definition black :: "dfs_state \<Rightarrow> jsstring set" where
  "black s = visited s - inStack s"

definition dfs_inv :: "TaskEntry list \<Rightarrow> dfs_state \<Rightarrow> bool" where
  "dfs_inv tsk s \<longleftrightarrow>
     inStack s \<subseteq> visited s \<and>
     (\<forall>x y. parent s x = Some y \<longrightarrow> edge tsk y x) \<and>
     (\<forall>a \<in> black s. \<forall>b. edge tsk a b \<longrightarrow> b \<in> black s) \<and>
     (\<forall>a \<in> black s. \<not> (edge tsk)\<^sup>+\<^sup>+ a a)"

text \<open>What holds when \<open>dfs\<close> and its loop are entered, and when they return null.\<close>

definition dfs_pre :: "TaskEntry list \<Rightarrow> jsstring \<Rightarrow> dfs_state \<Rightarrow> bool" where
  "dfs_pre tsk i s \<longleftrightarrow>
     dfs_inv tsk s \<and> i \<notin> visited s \<and> dom (parent s) \<subseteq> insert i (visited s) \<and>
     (\<forall>x \<in> inStack s. ancestor (parent s) i x)"

definition deps_pre :: "TaskEntry list \<Rightarrow> jsstring \<Rightarrow> dfs_state \<Rightarrow> bool" where
  "deps_pre tsk i s \<longleftrightarrow>
     dfs_inv tsk s \<and> i \<in> inStack s \<and> dom (parent s) \<subseteq> visited s \<and>
     (\<forall>x \<in> inStack s. ancestor (parent s) i x)"

definition dfs_post :: "TaskEntry list \<Rightarrow> jsstring \<Rightarrow> dfs_state \<Rightarrow> dfs_state \<Rightarrow> bool" where
  "dfs_post tsk i s s' \<longleftrightarrow>
     dfs_inv tsk s' \<and> visited s \<subseteq> visited s' \<and> i \<in> visited s' \<and> inStack s' = inStack s \<and>
     dom (parent s') \<subseteq> visited s' \<and>
     (\<forall>x \<in> insert i (visited s). parent s' x = parent s x)"

definition deps_post :: "TaskEntry list \<Rightarrow> jsstring list \<Rightarrow> dfs_state \<Rightarrow> dfs_state \<Rightarrow> bool" where
  "deps_post tsk ds s s' \<longleftrightarrow>
     dfs_inv tsk s' \<and> visited s \<subseteq> visited s' \<and> inStack s' = inStack s \<and>
     dom (parent s') \<subseteq> visited s' \<and>
     (\<forall>x \<in> visited s. parent s' x = parent s x) \<and> set ds \<subseteq> black s'"

lemma closed_rtranclp:
  assumes "\<forall>a \<in> B. \<forall>b. E a b \<longrightarrow> b \<in> B" "E\<^sup>*\<^sup>* a b" "a \<in> B"
  shows "b \<in> B"
  using assms(2,3) by (induction rule: rtranclp_induct) (use assms(1) in auto)

lemma dfs_pre_enter:
  assumes "dfs_pre tsk i s"
  shows "deps_pre tsk i (enter i s)"
proof -
  from assms have inv: "dfs_inv tsk s" and nv: "i \<notin> visited s"
    and dm: "dom (parent s) \<subseteq> insert i (visited s)"
    and an: "\<forall>x \<in> inStack s. ancestor (parent s) i x"
    by (simp_all add: dfs_pre_def)
  from inv have sub: "inStack s \<subseteq> visited s" by (simp add: dfs_inv_def)
  with nv have b: "black (enter i s) = black s" by (auto simp: black_def)
  from inv sub b have "dfs_inv tsk (enter i s)"
    by (auto simp: dfs_inv_def)
  moreover from an have "\<forall>x \<in> inStack (enter i s). ancestor (parent (enter i s)) i x"
    by (auto intro: ancestor.self)
  ultimately show ?thesis using dm by (simp add: deps_pre_def)
qed

lemma leave_post:
  assumes pre: "dfs_pre tsk i s"
    and inv2: "dfs_inv tsk s2" and vis: "insert i (visited s) \<subseteq> visited s2"
    and stk: "inStack s2 = insert i (inStack s)"
    and dm: "dom (parent s2) \<subseteq> visited s2"
    and par: "\<forall>x \<in> insert i (visited s). parent s2 x = parent s x"
    and succ: "\<forall>b. edge tsk i b \<longrightarrow> b \<in> black s2"
  shows "dfs_post tsk i s (leave i s2)"
proof -
  from pre have nv: "i \<notin> visited s" and sub: "inStack s \<subseteq> visited s"
    by (simp_all add: dfs_pre_def dfs_inv_def)
  then have ns: "i \<notin> inStack s" by blast
  have bl: "black (leave i s2) = insert i (black s2)"
    using vis stk by (auto simp: black_def)
  have nb: "i \<notin> black s2" using stk by (simp add: black_def)
  from inv2 have cl: "\<forall>a \<in> black s2. \<forall>b. edge tsk a b \<longrightarrow> b \<in> black s2"
    and ac: "\<forall>a \<in> black s2. \<not> (edge tsk)\<^sup>+\<^sup>+ a a"
    and pe: "\<forall>x y. parent s2 x = Some y \<longrightarrow> edge tsk y x"
    and sub2: "inStack s2 \<subseteq> visited s2"
    by (simp_all add: dfs_inv_def)
  have "\<not> (edge tsk)\<^sup>+\<^sup>+ i i"
  proof
    assume "(edge tsk)\<^sup>+\<^sup>+ i i"
    then obtain b where "edge tsk i b" "(edge tsk)\<^sup>*\<^sup>* b i" by (auto dest: tranclpD)
    with succ have "b \<in> black s2" by blast
    from closed_rtranclp [OF cl \<open>(edge tsk)\<^sup>*\<^sup>* b i\<close> this] nb show False by simp
  qed
  with ac cl succ bl pe sub2 have "dfs_inv tsk (leave i s2)"
    by (auto simp: dfs_inv_def)
  moreover have "inStack (leave i s2) = inStack s" using stk ns by auto
  ultimately show ?thesis using vis dm par by (auto simp: dfs_post_def)
qed

lemma dfs_pre_set_parent:
  assumes pre: "deps_pre tsk i s" and e: "edge tsk i dep" and nv: "dep \<notin> visited s"
  shows "dfs_pre tsk dep (s\<lparr>parent := (parent s)(dep \<mapsto> i)\<rparr>)"
proof -
  let ?s1 = "s\<lparr>parent := (parent s)(dep \<mapsto> i)\<rparr>"
  from pre have inv: "dfs_inv tsk s" and dm: "dom (parent s) \<subseteq> visited s"
    and an: "\<forall>x \<in> inStack s. ancestor (parent s) i x"
    by (simp_all add: deps_pre_def)
  have b: "black ?s1 = black s" by (simp add: black_def)
  from inv e b have "dfs_inv tsk ?s1" by (auto simp: dfs_inv_def)
  moreover have "\<forall>x \<in> inStack ?s1. ancestor (parent ?s1) dep x"
  proof
    fix x assume "x \<in> inStack ?s1"
    with an have a: "ancestor (parent s) i x" by simp
    have "ancestor (parent ?s1) i x"
    proof (rule ancestor_frame [OF a])
      fix y assume "y \<in> dom (parent s)"
      with dm nv have "y \<noteq> dep" by blast
      then show "parent ?s1 y = parent s y" by simp
    qed
    moreover have "parent ?s1 dep = Some i" by simp
    ultimately show "ancestor (parent ?s1) dep x" by (rule ancestor.step [rotated])
  qed
  ultimately show ?thesis using nv dm by (auto simp: dfs_pre_def)
qed

lemma deps_pre_after_child:
  assumes pre: "deps_pre tsk i s" and nv: "dep \<notin> visited s"
    and post: "dfs_post tsk dep (s\<lparr>parent := (parent s)(dep \<mapsto> i)\<rparr>) s2"
  shows "deps_pre tsk i s2"
proof -
  from pre have dm: "dom (parent s) \<subseteq> visited s" and ins: "i \<in> inStack s"
    and an: "\<forall>x \<in> inStack s. ancestor (parent s) i x"
    by (simp_all add: deps_pre_def)
  from post have inv2: "dfs_inv tsk s2" and stk: "inStack s2 = inStack s"
    and dm2: "dom (parent s2) \<subseteq> visited s2"
    and par: "\<forall>x \<in> insert dep (visited s). parent s2 x = ((parent s)(dep \<mapsto> i)) x"
    by (simp_all add: dfs_post_def)
  have "\<forall>x \<in> inStack s2. ancestor (parent s2) i x"
  proof
    fix x assume "x \<in> inStack s2"
    with an stk have a: "ancestor (parent s) i x" by simp
    show "ancestor (parent s2) i x"
    proof (rule ancestor_frame [OF a])
      fix y assume "y \<in> dom (parent s)"
      with dm nv have "y \<noteq> dep" "y \<in> visited s" by blast+
      with par show "parent s2 y = parent s y" by simp
    qed
  qed
  with inv2 stk ins dm2 show ?thesis by (simp add: deps_pre_def)
qed

definition dfs_ok :: "TaskEntry list \<Rightarrow> (dfs_state \<times> jsstring list option) option \<Rightarrow>
    (dfs_state \<Rightarrow> bool) \<Rightarrow> bool" where
  "dfs_ok tsk res post \<longleftrightarrow>
     (\<exists>s' r. res = Some (s', r) \<and> (case r of Some c \<Rightarrow> is_cycle tsk c | None \<Rightarrow> post s'))"

lemma dfs_okI_cycle: "res = Some (s', Some c) \<Longrightarrow> is_cycle tsk c \<Longrightarrow> dfs_ok tsk res post"
  by (auto simp: dfs_ok_def)

lemma dfs_okI_none: "res = Some (s', None) \<Longrightarrow> post s' \<Longrightarrow> dfs_ok tsk res post"
  by (auto simp: dfs_ok_def)

lemma dfs_okE:
  assumes "dfs_ok tsk res post"
  obtains (cycle) s' c where "res = Some (s', Some c)" "is_cycle tsk c"
  | (none) s' where "res = Some (s', None)" "post s'"
proof -
  from assms obtain s' r where a: "res = Some (s', r)"
    "case r of Some c \<Rightarrow> is_cycle tsk c | None \<Rightarrow> post s'"
    unfolding dfs_ok_def by blast
  show ?thesis
  proof (cases r)
    case None
    with a none show ?thesis by simp
  next
    case (Some c)
    with a cycle show ?thesis by simp
  qed
qed

lemma back_edge_cycle:
  assumes pre: "deps_pre tsk i s" and e: "edge tsk i dep" and st: "dep \<in> inStack s"
  shows "\<exists>path. walk_back (parent s) dep i [dep] = Some path \<and> is_cycle tsk (rev (path @ [dep]))"
proof -
  from pre st have "ancestor (parent s) i dep" by (simp add: deps_pre_def)
  then obtain xs where w: "walk (parent s) dep i xs" using ancestor_walk by blast
  from pre have pe: "\<And>x y. parent s x = Some y \<Longrightarrow> edge tsk y x"
    by (simp add: deps_pre_def dfs_inv_def)
  from walk_path [OF w, of "edge tsk"] pe
  have p: "is_path (edge tsk) (dep # rev xs)" and l: "last (dep # rev xs) = i" by blast+
  from p l e have "is_path (edge tsk) ((dep # rev xs) @ [dep])"
    by (subst is_path_snoc) simp
  then have "is_cycle tsk (rev (([dep] @ xs) @ [dep]))"
    by (simp add: is_cycle_def)
  moreover from walk_back_walk [OF w, of "[dep]"]
  have "walk_back (parent s) dep i [dep] = Some ([dep] @ xs)" .
  ultimately show ?thesis by blast
qed

lemma dfs_correct:
  "dfs_pre tsk i s \<Longrightarrow> dfs_ok tsk (dfs tsk i s) (dfs_post tsk i s)"
  "deps_pre tsk j s \<Longrightarrow> \<forall>d \<in> set ds. edge tsk j d \<Longrightarrow>
     dfs_ok tsk (dfs_deps tsk j ds s) (deps_post tsk ds s)"
proof (induction tsk i s and tsk j ds s rule: dfs_dfs_deps.induct)
  case (1 tsk i s)
  note pre = \<open>dfs_pre tsk i s\<close>
  show ?case
  proof (cases "buildIndex tsk i")
    case None
    then have ne: "\<forall>b. \<not> edge tsk i b" by (simp add: edge_def)
    from dfs_pre_enter [OF pre] have dp: "deps_pre tsk i (enter i s)" .
    have "dfs_post tsk i s (leave i (enter i s))"
    proof (rule leave_post [OF pre])
      show "dfs_inv tsk (enter i s)" using dp by (simp add: deps_pre_def)
      show "dom (parent (enter i s)) \<subseteq> visited (enter i s)" using dp by (simp add: deps_pre_def)
    qed (use ne in simp_all)
    with None show ?thesis
      by (intro dfs_okI_none [of _ "leave i (enter i s)"]) (simp_all add: dfs.simps)
  next
    case (Some task)
    from dfs_pre_enter [OF pre] have dp: "deps_pre tsk i (enter i s)" .
    have ed: "\<forall>d \<in> set (deps task). edge tsk i d" using Some by (auto simp: edge_def)
    from "1.IH" [OF Some dp ed]
    have "dfs_ok tsk (dfs_deps tsk i (deps task) (enter i s)) (deps_post tsk (deps task) (enter i s))" .
    then show ?thesis
    proof (cases rule: dfs_okE)
      case (cycle s' c)
      with Some show ?thesis
        by (intro dfs_okI_cycle [of _ s' c]) (simp_all add: dfs.simps)
    next
      case (none s2)
      have "dfs_post tsk i s (leave i s2)"
      proof (rule leave_post [OF pre])
        from none(2) show "dfs_inv tsk s2" "dom (parent s2) \<subseteq> visited s2"
          "insert i (visited s) \<subseteq> visited s2" "inStack s2 = insert i (inStack s)"
          "\<forall>x \<in> insert i (visited s). parent s2 x = parent s x"
          by (simp_all add: deps_post_def)
        from none(2) have "set (deps task) \<subseteq> black s2" by (simp add: deps_post_def)
        with Some show "\<forall>b. edge tsk i b \<longrightarrow> b \<in> black s2" by (auto simp: edge_def)
      qed
      with Some none(1) show ?thesis
        by (intro dfs_okI_none [of _ "leave i s2"]) (simp_all add: dfs.simps)
    qed
  qed
next
  case (2 tsk i s)
  then have "deps_post tsk [] s s" by (simp add: deps_post_def deps_pre_def)
  then show ?case by (intro dfs_okI_none [of _ s]) (simp_all add: dfs_deps.simps)
next
  case (3 tsk i dep rest s)
  note pre = \<open>deps_pre tsk i s\<close>
  from "3.prems"(2) have e: "edge tsk i dep" and er: "\<forall>d \<in> set rest. edge tsk i d" by simp_all
  from pre have inv: "dfs_inv tsk s" and sub: "inStack s \<subseteq> visited s"
    by (simp_all add: deps_pre_def dfs_inv_def)
  show ?case
  proof (cases "dep \<notin> visited s")
    case True
    let ?s1 = "s\<lparr>parent := (parent s)(dep \<mapsto> i)\<rparr>"
    from dfs_pre_set_parent [OF pre e True] have dpre: "dfs_pre tsk dep ?s1" .
    from "3.IH"(1) [OF True dpre]
    have "dfs_ok tsk (dfs tsk dep ?s1) (dfs_post tsk dep ?s1)" .
    then show ?thesis
    proof (cases rule: dfs_okE)
      case (cycle s' c)
      with True show ?thesis
        by (intro dfs_okI_cycle [of _ s' c]) (simp_all add: dfs_deps.simps)
    next
      case (none s2)
      from deps_pre_after_child [OF pre True none(2)] have p2: "deps_pre tsk i s2" .
      from "3.IH"(2) [OF True none(1) refl refl p2 er]
      have "dfs_ok tsk (dfs_deps tsk i rest s2) (deps_post tsk rest s2)" .
      then show ?thesis
      proof (cases rule: dfs_okE)
        case (cycle s' c)
        with True none(1) show ?thesis
          by (intro dfs_okI_cycle [of _ s' c]) (simp_all add: dfs_deps.simps)
      next
        case inner: (none s3)
        from none(2) have a: "visited s \<subseteq> visited s2" "dep \<in> visited s2" "inStack s2 = inStack s"
          "\<forall>x \<in> insert dep (visited s). parent s2 x = ((parent s)(dep \<mapsto> i)) x"
          by (simp_all add: dfs_post_def)
        from inner(2) have b: "dfs_inv tsk s3" "visited s2 \<subseteq> visited s3" "inStack s3 = inStack s2"
          "dom (parent s3) \<subseteq> visited s3" "\<forall>x \<in> visited s2. parent s3 x = parent s2 x"
          "set rest \<subseteq> black s3"
          by (simp_all add: deps_post_def)
        have "dep \<in> black s3" using a b True sub by (auto simp: black_def)
        moreover have "\<forall>x \<in> visited s. parent s3 x = parent s x"
        proof
          fix x assume x: "x \<in> visited s"
          with True have "x \<noteq> dep" by blast
          with x a b show "parent s3 x = parent s x" by auto
        qed
        ultimately have "deps_post tsk (dep # rest) s s3"
          using a b by (auto simp: deps_post_def)
        with True none(1) inner(1) show ?thesis
          by (intro dfs_okI_none [of _ s3]) (simp_all add: dfs_deps.simps)
      qed
    qed
  next
    case False
    then have v: "dep \<in> visited s" by simp
    show ?thesis
    proof (cases "dep \<in> inStack s")
      case True
      from back_edge_cycle [OF pre e True] obtain path where
        "walk_back (parent s) dep i [dep] = Some path" "is_cycle tsk (rev (path @ [dep]))"
        by blast
      with v True show ?thesis
        by (intro dfs_okI_cycle [of _ s "rev (path @ [dep])"]) (simp_all add: dfs_deps.simps)
    next
      case ns: False
      from "3.IH"(3) [OF False ns pre er]
      have "dfs_ok tsk (dfs_deps tsk i rest s) (deps_post tsk rest s)" .
      then show ?thesis
      proof (cases rule: dfs_okE)
        case (cycle s' c)
        with v ns show ?thesis
          by (intro dfs_okI_cycle [of _ s' c]) (simp_all add: dfs_deps.simps)
      next
        case (none s3)
        from none(2) have b: "visited s \<subseteq> visited s3" "inStack s3 = inStack s"
          by (simp_all add: deps_post_def)
        with v ns have "dep \<in> black s3" by (auto simp: black_def)
        with none(2) have "deps_post tsk (dep # rest) s s3" by (simp add: deps_post_def)
        with v ns none(1) show ?thesis
          by (intro dfs_okI_none [of _ s3]) (simp_all add: dfs_deps.simps)
      qed
    qed
  qed
qed

lemma detect_loop_correct:
  assumes "dfs_inv tsk s" "inStack s = {}" "dom (parent s) \<subseteq> visited s"
  shows "\<exists>r. detect_loop tsk ts s = Some r \<and>
           (case r of Some c \<Rightarrow> is_cycle tsk c
            | None \<Rightarrow> \<exists>s'. dfs_inv tsk s' \<and> inStack s' = {} \<and> visited s \<subseteq> visited s' \<and>
                          task_id ` set ts \<subseteq> visited s')"
  using assms
proof (induction ts arbitrary: s)
  case Nil
  then show ?case by auto
next
  case (Cons t rest)
  show ?case
  proof (cases "task_id t \<in> visited s")
    case True
    from Cons.IH [OF Cons.prems] obtain r where r: "detect_loop tsk rest s = Some r"
      "case r of Some c \<Rightarrow> is_cycle tsk c
       | None \<Rightarrow> \<exists>s'. dfs_inv tsk s' \<and> inStack s' = {} \<and> visited s \<subseteq> visited s' \<and>
                     task_id ` set rest \<subseteq> visited s'" by blast
    show ?thesis
    proof (cases r)
      case None
      with r True show ?thesis by auto
    next
      case (Some c)
      with r True show ?thesis by simp
    qed
  next
    case False
    with Cons.prems have "dfs_pre tsk (task_id t) s" by (auto simp: dfs_pre_def)
    from dfs_correct(1) [OF this] show ?thesis
    proof (cases rule: dfs_okE)
      case (cycle s' c)
      with False show ?thesis by simp
    next
      case (none s1)
      then have p: "dfs_inv tsk s1" "inStack s1 = {}" "dom (parent s1) \<subseteq> visited s1"
        and v: "visited s \<subseteq> visited s1" "task_id t \<in> visited s1"
        using Cons.prems(2) by (simp_all add: dfs_post_def)
      from Cons.IH [OF p] obtain r where r: "detect_loop tsk rest s1 = Some r"
        "case r of Some c \<Rightarrow> is_cycle tsk c
         | None \<Rightarrow> \<exists>s'. dfs_inv tsk s' \<and> inStack s' = {} \<and> visited s1 \<subseteq> visited s' \<and>
                       task_id ` set rest \<subseteq> visited s'" by blast
      show ?thesis
      proof (cases r)
        case None
        with r(2) obtain s' where "dfs_inv tsk s'" "inStack s' = {}" "visited s1 \<subseteq> visited s'"
          "task_id ` set rest \<subseteq> visited s'" by auto
        with v have "dfs_inv tsk s' \<and> inStack s' = {} \<and> visited s \<subseteq> visited s' \<and>
                          task_id ` set (t # rest) \<subseteq> visited s'" by auto
        with None r(1) none(1) False show ?thesis by auto
      next
        case (Some c)
        with r none(1) False show ?thesis by simp
      qed
    qed
  qed
qed

lemma cycle_start_indexed:
  assumes "is_cycle tsk c"
  shows "hd c \<in> task_id ` set tsk"
proof -
  from is_cycle_tranclp [OF assms] obtain b where "edge tsk (hd c) b" by (auto dest: tranclpD)
  then obtain t where "buildIndex tsk (hd c) = Some t"
    by (auto simp: edge_def split: option.splits)
  then have "buildIndex tsk (hd c) \<noteq> None" by simp
  then show ?thesis by (simp only: buildIndex_None not_not)
qed

lemma detectCycles_correct:
  "(\<exists>c. detectCycles tsk = Some (Some c) \<and> is_cycle tsk c) \<or>
   (detectCycles tsk = Some None \<and> (\<forall>c. \<not> is_cycle tsk c))"
proof -
  let ?s0 = "\<lparr>visited = {}, inStack = {}, parent = Map.empty\<rparr>"
  have "dfs_inv tsk ?s0" by (simp add: dfs_inv_def black_def)
  from detect_loop_correct [OF this, of tsk] obtain r where r: "detectCycles tsk = Some r"
    "case r of Some c \<Rightarrow> is_cycle tsk c
     | None \<Rightarrow> \<exists>s'. dfs_inv tsk s' \<and> inStack s' = {} \<and> visited ?s0 \<subseteq> visited s' \<and>
                   task_id ` set tsk \<subseteq> visited s'"
    by (auto simp: detectCycles_def)
  show ?thesis
  proof (cases r)
    case (Some c)
    with r show ?thesis by simp
  next
    case None
    with r(2) obtain s' where s': "dfs_inv tsk s'" "inStack s' = {}"
      "task_id ` set tsk \<subseteq> visited s'" by auto
    have "\<not> is_cycle tsk c" for c
    proof
      assume c: "is_cycle tsk c"
      from cycle_start_indexed [OF c] s' have "hd c \<in> black s'" by (auto simp: black_def)
      with s'(1) have "\<not> (edge tsk)\<^sup>+\<^sup>+ (hd c) (hd c)" by (simp add: dfs_inv_def)
      with is_cycle_tranclp [OF c] show False by simp
    qed
    with None r(1) show ?thesis by simp
  qed
qed

lemma detectCycles_acyclic: "detectCycles tsk = Some None \<Longrightarrow> \<not> is_cycle tsk c"
  using detectCycles_correct [of tsk] by auto

subsection \<open>findNextTask\<close>

text \<open>
  A task is ready when it is pending and each of its dependency ids resolves, in the
  index of the sequence, to a task that is done; an id the index does not know is
  not done.
\<close>

definition ready :: "TaskEntry list \<Rightarrow> TaskEntry \<Rightarrow> bool" where
  "ready ts t \<longleftrightarrow>
     task_status t = Pending \<and>
     (\<forall>d \<in> set (deps t).
        case buildIndex ts d of None \<Rightarrow> False | Some u \<Rightarrow> task_status u = Done)"

lemma deps_done_ready:
  "task_status t = Pending \<and> deps_done (buildIndex ts) t \<longleftrightarrow> ready ts t"
  by (auto simp: deps_done_def ready_def list_all_iff split: option.splits)

lemma select_next_first:
  "(select_next (buildIndex tsk) ts = None \<and> (\<forall>k < length ts. \<not> ready tsk (ts ! k))) \<or>
   (\<exists>k < length ts. select_next (buildIndex tsk) ts = Some (ts ! k) \<and> ready tsk (ts ! k) \<and>
        (\<forall>j < k. \<not> ready tsk (ts ! j)))"
proof (induction ts)
  case Nil
  then show ?case by simp
next
  case (Cons t ts)
  show ?case
  proof (cases "ready tsk t")
    case True
    then have "select_next (buildIndex tsk) (t # ts) = Some ((t # ts) ! 0)"
      using deps_done_ready [of t tsk] by auto
    with True show ?thesis by (intro disjI2 exI [of _ 0]) simp
  next
    case False
    then have eq: "select_next (buildIndex tsk) (t # ts) = select_next (buildIndex tsk) ts"
      using deps_done_ready [of t tsk] by auto
    from Cons.IH show ?thesis
    proof (elim disjE conjE exE)
      assume a: "select_next (buildIndex tsk) ts = None" "\<forall>k < length ts. \<not> ready tsk (ts ! k)"
      have "\<forall>k < length (t # ts). \<not> ready tsk ((t # ts) ! k)"
      proof (intro allI impI)
        fix k assume "k < length (t # ts)"
        with False a(2) show "\<not> ready tsk ((t # ts) ! k)" by (cases k) simp_all
      qed
      with a(1) eq show ?thesis by simp
    next
      fix k
      assume a: "k < length ts" "select_next (buildIndex tsk) ts = Some (ts ! k)"
        "ready tsk (ts ! k)" "\<forall>j < k. \<not> ready tsk (ts ! j)"
      have "\<forall>j < Suc k. \<not> ready tsk ((t # ts) ! j)"
      proof (intro allI impI)
        fix j assume "j < Suc k"
        with False a(4) show "\<not> ready tsk ((t # ts) ! j)" by (cases j) simp_all
      qed
      with a eq show ?thesis by (intro disjI2 exI [of _ "Suc k"]) simp
    qed
  qed
qed

text \<open>
  Claim C1.  Let the pending tasks of a sequence be its tasks of status pending, in
  order.  If they contain no dependency cycle, \<open>findNextTask\<close> returns the first
  task of the sequence that is ready, and null when no task is ready.  If they
  contain a cycle, \<open>findNextTask\<close> raises the cyclic-dependency error, and the list
  it carries is a cycle of the pending tasks; no selection result is produced.
\<close>

theorem findNextTask_spec:
  "((\<forall>c. \<not> is_cycle (filter (\<lambda>t. task_status t = Pending) ts) c) \<longrightarrow>
      (findNextTask ts = Some (Inr None) \<and> (\<forall>k < length ts. \<not> ready ts (ts ! k))) \<or>
      (\<exists>k < length ts. findNextTask ts = Some (Inr (Some (ts ! k))) \<and> ready ts (ts ! k) \<and>
           (\<forall>j < k. \<not> ready ts (ts ! j)))) \<and>
   ((\<exists>c. is_cycle (filter (\<lambda>t. task_status t = Pending) ts) c) \<longrightarrow>
      (\<exists>c. findNextTask ts = Some (Inl (CyclicDependency c)) \<and>
           is_cycle (filter (\<lambda>t. task_status t = Pending) ts) c))"
proof (intro conjI impI)
  let ?P = "filter (\<lambda>t. task_status t = Pending) ts"
  assume "\<forall>c. \<not> is_cycle ?P c"
  with detectCycles_correct [of ?P] have "detectCycles ?P = Some None" by blast
  then have "findNextTask ts = Some (Inr (select_next (buildIndex ts) ts))"
    by (simp add: findNextTask_def)
  with select_next_first [of ts ts]
  show "(findNextTask ts = Some (Inr None) \<and> (\<forall>k < length ts. \<not> ready ts (ts ! k))) \<or>
      (\<exists>k < length ts. findNextTask ts = Some (Inr (Some (ts ! k))) \<and> ready ts (ts ! k) \<and>
           (\<forall>j < k. \<not> ready ts (ts ! j)))"
    by auto
next
  let ?P = "filter (\<lambda>t. task_status t = Pending) ts"
  assume "\<exists>c. is_cycle ?P c"
  with detectCycles_correct [of ?P] obtain c where "detectCycles ?P = Some (Some c)" "is_cycle ?P c"
    by blast
  then show "\<exists>c. findNextTask ts = Some (Inl (CyclicDependency c)) \<and> is_cycle ?P c"
    by (auto simp: findNextTask_def)
qed

theorem findNextTask_spec_witness:
  "detectCycles (filter (\<lambda>t. task_status t = Pending)
      [tk id1 Done [], tk id2 Pending [id1], tk id3 Pending [id2]]) = Some None \<and>
   findNextTask [tk id1 Done [], tk id2 Pending [id1], tk id3 Pending [id2]]
     = Some (Inr (Some (tk id2 Pending [id1]))) \<and>
   findNextTask [tk id1 Failed [], tk id2 Pending [id1]] = Some (Inr None) \<and>
   is_cycle (filter (\<lambda>t. task_status t = Pending)
      [tk id1 Done [], tk id3 Pending [id4], tk id4 Pending [id3]]) [id3, id4, id3] \<and>
   findNextTask [tk id1 Done [], tk id3 Pending [id4], tk id4 Pending [id3]]
     = Some (Inl (CyclicDependency [id3, id4, id3]))"
proof -
  let ?a = "[tk id1 Done [], tk id2 Pending [id1], tk id3 Pending [id2]]"
  let ?b = "[tk id1 Failed [], tk id2 Pending [id1]]"
  let ?c = "[tk id1 Done [], tk id3 Pending [id4], tk id4 Pending [id3]]"
  have a: "detectCycles (filter (\<lambda>t. task_status t = Pending) ?a) = Some None"
    by (simp add: eval_defs dfs.simps dfs_deps.simps)
  have b: "detectCycles (filter (\<lambda>t. task_status t = Pending) ?b) = Some None"
    by (simp add: eval_defs dfs.simps dfs_deps.simps)
  have c: "is_cycle (filter (\<lambda>t. task_status t = Pending) ?c) [id3, id4, id3]"
    by (simp add: is_cycle_def edge_def buildIndex_def)
  have ea: "findNextTask ?a = Some (Inr (Some (tk id2 Pending [id1])))"
    by (simp add: eval_defs dfs.simps dfs_deps.simps)
  have eb: "findNextTask ?b = Some (Inr None)"
    by (simp add: eval_defs dfs.simps dfs_deps.simps)
  have ec: "findNextTask ?c = Some (Inl (CyclicDependency [id3, id4, id3]))"
    by (simp add: eval_defs dfs.simps dfs_deps.simps)
  from detectCycles_acyclic [OF a] detectCycles_acyclic [OF b] c
    findNextTask_spec [of ?a] findNextTask_spec [of ?b] findNextTask_spec [of ?c]
    a ea eb ec
  show ?thesis by blast
qed

subsection \<open>Reading through references\<close>

lemma get_task_append: "get_task h a = Some t \<Longrightarrow> get_task (h @ ext) a = Some t"
  by (auto simp: get_task_def nth_append split: if_splits)

lemma get_arr_append: "get_arr h a = Some rs \<Longrightarrow> get_arr (h @ ext) a = Some rs"
  by (auto simp: get_arr_def nth_append split: if_splits)

lemma get_prog_append: "get_prog h a = Some v \<Longrightarrow> get_prog (h @ ext) a = Some v"
  by (auto simp: get_prog_def nth_append split: if_splits)

lemma get_task_new [simp]: "get_task (h @ TaskObj t # ext) (length h) = Some t"
  by (simp add: get_task_def)

lemma get_arr_new [simp]: "get_arr (h @ ArrObj rs # ext) (length h) = Some rs"
  by (simp add: get_arr_def)

lemma get_prog_new [simp]:
  "get_prog (h @ ProgObj nm st cur arr # ext) (length h) = Some (nm, st, cur, arr)"
  by (simp add: get_prog_def)

lemma read_tasks_append:
  "read_tasks h refs = Some ts \<Longrightarrow> read_tasks (h @ ext) refs = Some ts"
proof (induction refs arbitrary: ts)
  case Nil
  then show ?case by simp
next
  case (Cons a as)
  from Cons.prems obtain t ts' where t: "get_task h a = Some t" "read_tasks h as = Some ts'"
    "ts = t # ts'"
    by (auto split: option.splits)
  from get_task_append [OF t(1)] Cons.IH [OF t(2)] t(3) show ?case by simp
qed

lemma read_array_append:
  "read_array h a = Some ts \<Longrightarrow> read_array (h @ ext) a = Some ts"
  by (auto simp: read_array_def get_arr_append read_tasks_append split: option.splits)

lemma read_progress_append:
  assumes "read_progress h p = Some data"
  shows "read_progress (h @ ext) p = Some data"
proof -
  from assms obtain nm st cur arr ts where a: "get_prog h p = Some (nm, st, cur, arr)"
    "read_array h arr = Some ts" "data = \<lparr>name = nm, status = st, current = cur, tasks = ts\<rparr>"
    by (auto simp: read_progress_def split: option.splits)
  from get_prog_append [OF a(1)] read_array_append [OF a(2)] a(3) show ?thesis
    by (simp add: read_progress_def)
qed

text \<open>The value a callback of \<open>map_refs\<close> leaves in a slot.\<close>

definition apply_cb :: "(TaskEntry \<Rightarrow> TaskEntry option) \<Rightarrow> TaskEntry \<Rightarrow> TaskEntry" where
  "apply_cb f t = (case f t of None \<Rightarrow> t | Some t' \<Rightarrow> t')"

lemma map_refs_correct:
  assumes "read_tasks h refs = Some ts"
  shows "\<exists>refs' ext. map_refs f refs h = Some (refs', h @ ext) \<and>
           read_tasks (h @ ext) refs' = Some (map (apply_cb f) ts)"
  using assms
proof (induction refs arbitrary: h ts)
  case Nil
  then show ?case by (intro exI [of _ "[]"]) simp
next
  case (Cons a as)
  from Cons.prems obtain t ts' where t: "get_task h a = Some t" "read_tasks h as = Some ts'"
    "ts = t # ts'"
    by (auto split: option.splits)
  show ?case
  proof (cases "f t")
    case None
    from Cons.IH [OF t(2)] obtain bs ext where b: "map_refs f as h = Some (bs, h @ ext)"
      "read_tasks (h @ ext) bs = Some (map (apply_cb f) ts')" by blast
    from t(1) None b t(3) get_task_append [OF t(1), of ext]
    have "map_refs f (a # as) h = Some (a # bs, h @ ext) \<and>
          read_tasks (h @ ext) (a # bs) = Some (map (apply_cb f) ts)"
      by (simp add: apply_cb_def)
    then show ?thesis by blast
  next
    case (Some t')
    let ?h1 = "h @ [TaskObj t']"
    from read_tasks_append [OF t(2)] have "read_tasks ?h1 as = Some ts'" .
    from Cons.IH [OF this] obtain bs ext where b: "map_refs f as ?h1 = Some (bs, ?h1 @ ext)"
      "read_tasks (?h1 @ ext) bs = Some (map (apply_cb f) ts')" by blast
    from t(1) Some b t(3)
    have "map_refs f (a # as) h = Some (length h # bs, h @ (TaskObj t' # ext)) \<and>
          read_tasks (h @ (TaskObj t' # ext)) (length h # bs) = Some (map (apply_cb f) ts)"
      by (simp add: apply_cb_def alloc_def)
    then show ?thesis by blast
  qed
qed

lemma reset_refs_correct:
  assumes "read_tasks h refs = Some ts"
  shows "\<exists>refs' ext. reset_refs refs f h = Some (refs', snd (reset_active ts f), h @ ext) \<and>
           read_tasks (h @ ext) refs' = Some (fst (reset_active ts f))"
  using assms
proof (induction refs arbitrary: h ts f)
  case Nil
  then show ?case by (intro exI [of _ "[]"]) simp
next
  case (Cons a as)
  from Cons.prems obtain t ts' where t: "get_task h a = Some t" "read_tasks h as = Some ts'"
    "ts = t # ts'"
    by (auto split: option.splits)
  show ?case
  proof (cases "task_status t = Active")
    case False
    from Cons.IH [OF t(2), of f] obtain bs ext where
      b: "reset_refs as f h = Some (bs, snd (reset_active ts' f), h @ ext)"
      "read_tasks (h @ ext) bs = Some (fst (reset_active ts' f))" by blast
    from t(1) False b t(3) get_task_append [OF t(1), of ext]
    have "reset_refs (a # as) f h = Some (a # bs, snd (reset_active ts f), h @ ext) \<and>
          read_tasks (h @ ext) (a # bs) = Some (fst (reset_active ts f))"
      by (simp add: case_prod_beta)
    then show ?thesis by blast
  next
    case True
    let ?t' = "t\<lparr>task_status := Pending\<rparr>"
    let ?h1 = "h @ [TaskObj ?t']"
    let ?f = "if falsy f then Some (task_id t) else f"
    from read_tasks_append [OF t(2)] have "read_tasks ?h1 as = Some ts'" .
    from Cons.IH [OF this, of ?f] obtain bs ext where
      b: "reset_refs as ?f ?h1 = Some (bs, snd (reset_active ts' ?f), ?h1 @ ext)"
      "read_tasks (?h1 @ ext) bs = Some (fst (reset_active ts' ?f))" by blast
    from t(1) True b t(3)
    have "reset_refs (a # as) f h
            = Some (length h # bs, snd (reset_active ts f), h @ (TaskObj ?t' # ext)) \<and>
          read_tasks (h @ (TaskObj ?t' # ext)) (length h # bs) = Some (fst (reset_active ts f))"
      by (simp add: case_prod_beta alloc_def)
    then show ?thesis by blast
  qed
qed

lemma read_progressD:
  assumes "read_progress h p = Some data"
  obtains arr refs where "get_prog h p = Some (name data, status data, current data, arr)"
    "get_arr h arr = Some refs" "read_tasks h refs = Some (tasks data)"
  using assms
  by (auto simp: read_progress_def read_array_def split: option.splits)

lemma read_progress_new:
  assumes "read_tasks h refs = Some ts"
  shows "read_progress (h @ [ArrObj refs, ProgObj nm st cur (length h)]) (Suc (length h))
           = Some \<lparr>name = nm, status = st, current = cur, tasks = ts\<rparr>"
proof -
  have "get_prog ((h @ [ArrObj refs]) @ ProgObj nm st cur (length h) # []) (length (h @ [ArrObj refs]))
          = Some (nm, st, cur, length h)" by (rule get_prog_new)
  moreover have "get_arr (h @ ArrObj refs # [ProgObj nm st cur (length h)]) (length h) = Some refs"
    by (rule get_arr_new)
  moreover from read_tasks_append [OF assms]
  have "read_tasks (h @ [ArrObj refs, ProgObj nm st cur (length h)]) refs = Some ts" .
  ultimately show ?thesis by (simp add: read_progress_def read_array_def)
qed

lemma completeTask_h_correct:
  assumes "read_progress h p = Some data"
  shows "\<exists>ext res. completeTask_h h p i summ = Some (h @ ext, res) \<and>
           (case res of Inl e \<Rightarrow> completeTask data i summ = Inl e
            | Inr p' \<Rightarrow> \<exists>d'. read_progress (h @ ext) p' = Some d' \<and>
                            completeTask data i summ = Inr d')"
proof -
  from assms obtain arr refs where a:
    "get_prog h p = Some (name data, status data, current data, arr)"
    "get_arr h arr = Some refs" "read_tasks h refs = Some (tasks data)"
    by (rule read_progressD)
  show ?thesis
  proof (cases "buildIndex (tasks data) i = None")
    case True
    with a have "completeTask_h h p i summ = Some (h @ [], Inl (TaskNotFound i))"
      by (simp add: completeTask_h_def)
    moreover from True have "completeTask data i summ = Inl (TaskNotFound i)"
      by (simp add: completeTask_def)
    ultimately show ?thesis by (intro exI [of _ "[]"] exI [of _ "Inl (TaskNotFound i)"]) simp
  next
    case False
    let ?f = "\<lambda>t. if task_id t = i then Some (t\<lparr>task_status := Done, summary := summ\<rparr>) else None"
    from map_refs_correct [OF a(3), of ?f] obtain refs' ext where
      m: "map_refs ?f refs h = Some (refs', h @ ext)"
      "read_tasks (h @ ext) refs' = Some (map (apply_cb ?f) (tasks data))" by blast
    let ?h1 = "h @ ext"
    let ?ext = "ext @ [ArrObj refs', ProgObj (name data) (status data) None (length ?h1)]"
    have ap: "apply_cb ?f = done_mark i summ"
      by (rule ext) (simp add: apply_cb_def done_mark_def)
    from a m False have "completeTask_h h p i summ = Some (h @ ?ext, Inr (Suc (length ?h1)))"
      by (simp add: completeTask_h_def alloc_def)
    moreover from read_progress_new [OF m(2), of "name data" "status data" None]
    have "read_progress (h @ ?ext) (Suc (length ?h1))
            = Some \<lparr>name = name data, status = status data, current = None,
                    tasks = map (done_mark i summ) (tasks data)\<rparr>"
      by (simp add: ap)
    moreover from completeTask_present [OF False, of summ]
    have "completeTask data i summ
            = Inr \<lparr>name = name data, status = status data, current = None,
                   tasks = map (done_mark i summ) (tasks data)\<rparr>"
      by simp
    ultimately show ?thesis
      by (intro exI [of _ ?ext] exI [of _ "Inr (Suc (length ?h1))"]) simp
  qed
qed

lemma failTask_h_correct:
  assumes "read_progress h p = Some data"
  shows "\<exists>ext res. failTask_h h p i = Some (h @ ext, res) \<and>
           (case res of Inl e \<Rightarrow> failTask data i = Inl e
            | Inr (verdict, p') \<Rightarrow> \<exists>d'. read_progress (h @ ext) p' = Some d' \<and>
                            failTask data i = Inr (verdict, d'))"
proof -
  from assms obtain arr refs where a:
    "get_prog h p = Some (name data, status data, current data, arr)"
    "get_arr h arr = Some refs" "read_tasks h refs = Some (tasks data)"
    by (rule read_progressD)
  show ?thesis
  proof (cases "buildIndex (tasks data) i")
    case None
    with a have "failTask_h h p i = Some (h @ [], Inl (TaskNotFound i))"
      by (simp add: failTask_h_def)
    moreover from None have "failTask data i = Inl (TaskNotFound i)"
      by (simp add: failTask_def)
    ultimately show ?thesis by (intro exI [of _ "[]"] exI [of _ "Inl (TaskNotFound i)"]) simp
  next
    case (Some old)
    let ?r = "js_add (retries old) (Num 1)"
    let ?v = "if js_ge ?r (Num 3) then Skip else Retry"
    let ?f = "\<lambda>t. if task_id t = i
                   then Some (t\<lparr>retries := ?r, task_status := (if js_ge ?r (Num 3) then Failed else Pending)\<rparr>)
                   else None"
    from map_refs_correct [OF a(3), of ?f] obtain refs' ext where
      m: "map_refs ?f refs h = Some (refs', h @ ext)"
      "read_tasks (h @ ext) refs' = Some (map (apply_cb ?f) (tasks data))" by blast
    let ?h1 = "h @ ext"
    let ?ext = "ext @ [ArrObj refs', ProgObj (name data) (status data) None (length ?h1)]"
    have ap: "apply_cb ?f = fail_mark i ?r"
      by (rule ext) (simp add: apply_cb_def fail_mark_def)
    have "failTask_h h p i = Some (h @ ?ext, Inr (?v, Suc (length ?h1)))"
    proof (cases "js_ge ?r (Num 3)")
      case True
      with m(1) have "map_refs (\<lambda>t. if task_id t = i
                   then Some (t\<lparr>retries := ?r, task_status := Failed\<rparr>) else None) refs h
              = Some (refs', h @ ext)" by (simp cong: if_cong)
      with a Some True show ?thesis
        by (simp add: failTask_h_def alloc_def Let_def del: One_nat_def add_Suc_right)
    next
      case False
      with m(1) have "map_refs (\<lambda>t. if task_id t = i
                   then Some (t\<lparr>retries := ?r, task_status := Pending\<rparr>) else None) refs h
              = Some (refs', h @ ext)" by (simp cong: if_cong)
      with a Some False show ?thesis
        by (simp add: failTask_h_def alloc_def Let_def del: One_nat_def add_Suc_right)
    qed
    moreover from read_progress_new [OF m(2), of "name data" "status data" None]
    have "read_progress (h @ ?ext) (Suc (length ?h1))
            = Some \<lparr>name = name data, status = status data, current = None,
                    tasks = map (fail_mark i ?r) (tasks data)\<rparr>"
      by (simp add: ap)
    moreover from failTask_present [OF Some]
    have "failTask data i
            = Inr (?v, \<lparr>name = name data, status = status data, current = None,
                         tasks = map (fail_mark i ?r) (tasks data)\<rparr>)"
      by simp
    ultimately show ?thesis
      by (intro exI [of _ ?ext] exI [of _ "Inr (?v, Suc (length ?h1))"]) simp
  qed
qed

lemma resumeProgress_h_correct:
  assumes "read_progress h p = Some data"
  shows "\<exists>ext p'. resumeProgress_h h p = Some (h @ ext, p', snd (resumeProgress data)) \<and>
           read_progress (h @ ext) p' = Some (fst (resumeProgress data))"
proof -
  from assms obtain arr refs where a:
    "get_prog h p = Some (name data, status data, current data, arr)"
    "get_arr h arr = Some refs" "read_tasks h refs = Some (tasks data)"
    by (rule read_progressD)
  show ?thesis
  proof (cases "list_ex (\<lambda>t. task_status t = Active) (tasks data)")
    case False
    with a have "resumeProgress_h h p = Some (h @ [], p, snd (resumeProgress data))"
      by (simp add: resumeProgress_h_def resumeProgress_def)
    moreover from False assms have "read_progress (h @ []) p = Some (fst (resumeProgress data))"
      by (simp add: resumeProgress_def)
    ultimately show ?thesis by blast
  next
    case True
    from reset_refs_correct [OF a(3), of None] obtain refs' ext where
      m: "reset_refs refs None h = Some (refs', snd (reset_active (tasks data) None), h @ ext)"
      "read_tasks (h @ ext) refs' = Some (fst (reset_active (tasks data) None))" by blast
    let ?h1 = "h @ ext"
    let ?ext = "ext @ [ArrObj refs', ProgObj (name data) Running None (length ?h1)]"
    from True have rp: "resumeProgress data
        = (\<lparr>name = name data, status = Running, current = None,
            tasks = fst (reset_active (tasks data) None)\<rparr>, snd (reset_active (tasks data) None))"
      by (simp add: resumeProgress_def case_prod_beta)
    from a m True have "resumeProgress_h h p
        = Some (h @ ?ext, Suc (length ?h1), snd (reset_active (tasks data) None))"
      by (simp add: resumeProgress_h_def alloc_def)
    moreover from read_progress_new [OF m(2), of "name data" Running None]
    have "read_progress (h @ ?ext) (Suc (length ?h1))
            = Some \<lparr>name = name data, status = Running, current = None,
                    tasks = fst (reset_active (tasks data) None)\<rparr>"
      by simp
    ultimately show ?thesis using rp
      by (intro exI [of _ ?ext] exI [of _ "Suc (length ?h1)"]) simp
  qed
qed

text \<open>
  Claim C6.  Let \<open>p\<close> refer to an aggregate in the store.  Whatever \<open>completeTask\<close>,
  \<open>failTask\<close> and \<open>resumeProgress\<close> return or raise, the store after the call is
  the store before it followed by new objects: no object that existed is written, so
  the aggregate behind \<open>p\<close> reads as before, with the same status, summary and
  retries of every task and the same \<open>current\<close> and workflow status.  All changes
  are in the new aggregate the returned reference leads to, which reads as the
  result of the function on values.
\<close>

theorem transitions_leave_input:
  assumes "read_progress h p = Some data"
  shows "(\<exists>ext res. completeTask_h h p i summ = Some (h @ ext, res) \<and>
            read_progress (h @ ext) p = Some data \<and>
            (case res of Inl e \<Rightarrow> completeTask data i summ = Inl e
             | Inr p' \<Rightarrow> \<exists>d'. read_progress (h @ ext) p' = Some d' \<and>
                             completeTask data i summ = Inr d')) \<and>
         (\<exists>ext res. failTask_h h p i = Some (h @ ext, res) \<and>
            read_progress (h @ ext) p = Some data \<and>
            (case res of Inl e \<Rightarrow> failTask data i = Inl e
             | Inr (verdict, p') \<Rightarrow> \<exists>d'. read_progress (h @ ext) p' = Some d' \<and>
                             failTask data i = Inr (verdict, d'))) \<and>
         (\<exists>ext p'. resumeProgress_h h p = Some (h @ ext, p', snd (resumeProgress data)) \<and>
            read_progress (h @ ext) p = Some data \<and>
            read_progress (h @ ext) p' = Some (fst (resumeProgress data)))"
proof (intro conjI)
  from completeTask_h_correct [OF assms, of i summ] obtain ext res where
    "completeTask_h h p i summ = Some (h @ ext, res)"
    "case res of Inl e \<Rightarrow> completeTask data i summ = Inl e
     | Inr p' \<Rightarrow> \<exists>d'. read_progress (h @ ext) p' = Some d' \<and> completeTask data i summ = Inr d'"
    by blast
  with read_progress_append [OF assms, of ext]
  show "\<exists>ext res. completeTask_h h p i summ = Some (h @ ext, res) \<and>
            read_progress (h @ ext) p = Some data \<and>
            (case res of Inl e \<Rightarrow> completeTask data i summ = Inl e
             | Inr p' \<Rightarrow> \<exists>d'. read_progress (h @ ext) p' = Some d' \<and>
                             completeTask data i summ = Inr d')"
    by blast
next
  from failTask_h_correct [OF assms, of i] obtain ext res where
    "failTask_h h p i = Some (h @ ext, res)"
    "case res of Inl e \<Rightarrow> failTask data i = Inl e
     | Inr (verdict, p') \<Rightarrow> \<exists>d'. read_progress (h @ ext) p' = Some d' \<and>
                             failTask data i = Inr (verdict, d')"
    by blast
  with read_progress_append [OF assms, of ext]
  show "\<exists>ext res. failTask_h h p i = Some (h @ ext, res) \<and>
            read_progress (h @ ext) p = Some data \<and>
            (case res of Inl e \<Rightarrow> failTask data i = Inl e
             | Inr (verdict, p') \<Rightarrow> \<exists>d'. read_progress (h @ ext) p' = Some d' \<and>
                             failTask data i = Inr (verdict, d'))"
    by blast
next
  from resumeProgress_h_correct [OF assms] obtain ext p' where
    "resumeProgress_h h p = Some (h @ ext, p', snd (resumeProgress data))"
    "read_progress (h @ ext) p' = Some (fst (resumeProgress data))"
    by blast
  with read_progress_append [OF assms, of ext]
  show "\<exists>ext p'. resumeProgress_h h p = Some (h @ ext, p', snd (resumeProgress data)) \<and>
            read_progress (h @ ext) p = Some data \<and>
            read_progress (h @ ext) p' = Some (fst (resumeProgress data))"
    by blast
qed

theorem transitions_leave_input_witness:
  "read_progress [TaskObj (tk id1 Active []), ArrObj [0], ProgObj [] Running (Some id1) 1] 2
     = Some \<lparr>name = [], status = Running, current = Some id1, tasks = [tk id1 Active []]\<rparr> \<and>
   completeTask_h [TaskObj (tk id1 Active []), ArrObj [0], ProgObj [] Running (Some id1) 1] 2 id1 [0x6F]
     = Some ([TaskObj (tk id1 Active []), ArrObj [0], ProgObj [] Running (Some id1) 1,
              TaskObj ((tk id1 Done [])\<lparr>summary := [0x6F]\<rparr>), ArrObj [3], ProgObj [] Running None 4],
             Inr 5) \<and>
   failTask_h [TaskObj (tk id1 Active []), ArrObj [0], ProgObj [] Running (Some id1) 1] 2 id1
     = Some ([TaskObj (tk id1 Active []), ArrObj [0], ProgObj [] Running (Some id1) 1,
              TaskObj ((tk id1 Pending [])\<lparr>retries := Num 1\<rparr>), ArrObj [3], ProgObj [] Running None 4],
             Inr (Retry, 5)) \<and>
   resumeProgress_h [TaskObj (tk id1 Active []), ArrObj [0], ProgObj [] Running (Some id1) 1] 2
     = Some ([TaskObj (tk id1 Active []), ArrObj [0], ProgObj [] Running (Some id1) 1,
              TaskObj (tk id1 Pending []), ArrObj [3], ProgObj [] Running None 4],
             5, Some id1)"
proof -
  let ?h = "[TaskObj (tk id1 Active []), ArrObj [0], ProgObj [] Running (Some id1) 1]"
  have r: "read_progress ?h 2
     = Some \<lparr>name = [], status = Running, current = Some id1, tasks = [tk id1 Active []]\<rparr>"
    by (simp add: read_progress_def read_array_def get_prog_def get_arr_def get_task_def)
  have c: "completeTask_h ?h 2 id1 [0x6F]
     = Some (?h @ [TaskObj ((tk id1 Done [])\<lparr>summary := [0x6F]\<rparr>), ArrObj [3], ProgObj [] Running None 4],
             Inr 5)"
    by (simp add: completeTask_h_def get_prog_def get_arr_def get_task_def alloc_def buildIndex_def)
  have f: "failTask_h ?h 2 id1
     = Some (?h @ [TaskObj ((tk id1 Pending [])\<lparr>retries := Num 1\<rparr>), ArrObj [3], ProgObj [] Running None 4],
             Inr (Retry, 5))"
    by (simp add: failTask_h_def get_prog_def get_arr_def get_task_def alloc_def buildIndex_def round_double_exact)
  have u: "resumeProgress_h ?h 2
     = Some (?h @ [TaskObj (tk id1 Pending []), ArrObj [3], ProgObj [] Running None 4], 5, Some id1)"
    by (simp add: resumeProgress_h_def get_prog_def get_arr_def get_task_def alloc_def falsy_def)
  from r c f u transitions_leave_input [OF r, of id1 "[0x6F]"] show ?thesis by simp
qed

subsection \<open>The result array of cascadeSkip\<close>

lemma read_tasks_iff:
  "read_tasks h refs = Some ts \<longleftrightarrow>
     length ts = length refs \<and> (\<forall>k < length refs. get_task h (refs ! k) = Some (ts ! k))"
proof (induction refs arbitrary: ts)
  case Nil
  then show ?case by auto
next
  case (Cons a as)
  show ?case
  proof (cases ts)
    case Nil
    then show ?thesis by (auto split: option.splits)
  next
    case (Cons t ts')
    have "read_tasks h (a # as) = Some (t # ts') \<longleftrightarrow>
            get_task h a = Some t \<and> read_tasks h as = Some ts'"
      by (auto split: option.splits)
    also have "\<dots> \<longleftrightarrow> get_task h a = Some t \<and> length ts' = length as \<and>
                 (\<forall>k < length as. get_task h (as ! k) = Some (ts' ! k))"
      by (simp add: Cons.IH)
    also have "\<dots> \<longleftrightarrow> length (t # ts') = length (a # as) \<and>
                 (\<forall>k < length (a # as). get_task h ((a # as) ! k) = Some ((t # ts') ! k))"
      by (auto simp: All_less_Suc2)
    finally show ?thesis using Cons by simp
  qed
qed

definition idx_rel :: "heap \<Rightarrow> (jsstring \<rightharpoonup> addr) \<Rightarrow> (jsstring \<rightharpoonup> TaskEntry) \<Rightarrow> bool" where
  "idx_rel h ih ip \<longleftrightarrow> (\<forall>d. rel_option (\<lambda>a u. get_task h a = Some u) (ih d) (ip d))"

lemma idx_rel_upd:
  "idx_rel h ih ip \<Longrightarrow> get_task h a = Some t \<Longrightarrow> idx_rel h (ih(k \<mapsto> a)) (ip(k \<mapsto> t))"
  by (simp add: idx_rel_def)

lemma buildIndex_h_rel:
  assumes "read_tasks h refs = Some ts" "idx_rel h m mp"
  shows "\<exists>ih. buildIndex_h h refs m = Some ih \<and>
           idx_rel h ih (foldl (\<lambda>m t. m(task_id t \<mapsto> t)) mp ts)"
  using assms
proof (induction refs arbitrary: ts m mp)
  case Nil
  then show ?case by simp
next
  case (Cons a as)
  from Cons.prems(1) obtain t ts' where t: "get_task h a = Some t" "read_tasks h as = Some ts'"
    "ts = t # ts'"
    by (auto split: option.splits)
  from idx_rel_upd [OF Cons.prems(2) t(1)]
  have "idx_rel h (m(task_id t \<mapsto> a)) (mp(task_id t \<mapsto> t))" .
  from Cons.IH [OF t(2) this] obtain ih where
    ih: "buildIndex_h h as (m(task_id t \<mapsto> a)) = Some ih"
    "idx_rel h ih (foldl (\<lambda>m t. m(task_id t \<mapsto> t)) (mp(task_id t \<mapsto> t)) ts')" by blast
  from t(1) ih(1) have "buildIndex_h h (a # as) m = Some ih" by simp
  moreover from ih(2) t(3) have "idx_rel h ih (foldl (\<lambda>m t. m(task_id t \<mapsto> t)) mp ts)"
    by (simp only: foldl_Cons)
  ultimately show ?case by blast
qed

lemma buildIndex_h_correct:
  assumes "read_tasks h refs = Some ts"
  shows "\<exists>ih. buildIndex_h h refs Map.empty = Some ih \<and> idx_rel h ih (buildIndex ts)"
proof -
  have "idx_rel h Map.empty Map.empty" by (simp add: idx_rel_def)
  from buildIndex_h_rel [OF assms this] show ?thesis by (simp add: buildIndex_def)
qed

lemma blocked_h_correct:
  assumes "idx_rel h ih ip"
  shows "blocked_h h ih ds
           = Some (list_ex (\<lambda>d. case ip d of None \<Rightarrow> False
                               | Some dep \<Rightarrow> task_status dep = Failed \<or> task_status dep = Skipped) ds)"
proof (induction ds)
  case Nil
  then show ?case by simp
next
  case (Cons d ds)
  from assms have r: "rel_option (\<lambda>a u. get_task h a = Some u) (ih d) (ip d)"
    by (simp add: idx_rel_def)
  show ?case
  proof (cases "ih d")
    case None
    with r have "ip d = None" by simp
    with None Cons show ?thesis by simp
  next
    case (Some a)
    with r obtain u where "ip d = Some u" "get_task h a = Some u"
      by (auto simp: option_rel_Some1)
    with Some Cons show ?thesis by simp
  qed
qed

text \<open>Every object of the earlier store other than the one at \<open>res\<close> is still there.\<close>

definition same_but :: "addr \<Rightarrow> heap \<Rightarrow> heap \<Rightarrow> bool" where
  "same_but res h h' \<longleftrightarrow> length h \<le> length h' \<and> (\<forall>a < length h. a \<noteq> res \<longrightarrow> h' ! a = h ! a)"

lemma same_but_refl: "same_but res h h"
  by (simp add: same_but_def)

lemma same_but_trans: "same_but res h h1 \<Longrightarrow> same_but res h1 h2 \<Longrightarrow> same_but res h h2"
  by (auto simp: same_but_def)

lemma same_but_get_task:
  assumes "same_but res h h'" "get_arr h res = Some refs" "get_task h a = Some t"
  shows "get_task h' a = Some t"
proof -
  from assms(3) have a: "a < length h" "h ! a = TaskObj t"
    by (auto simp: get_task_def split: if_splits obj.splits)
  from assms(2) have "\<exists>rs. h ! res = ArrObj rs"
    by (auto simp: get_arr_def split: if_splits obj.splits)
  with a have "a \<noteq> res" by auto
  with assms(1) a show ?thesis by (auto simp: same_but_def get_task_def)
qed

lemma same_but_idx_rel:
  assumes "same_but res h h'" "get_arr h res = Some refs" "idx_rel h ih ip"
  shows "idx_rel h' ih ip"
  unfolding idx_rel_def
proof
  fix d
  from assms(3) have "rel_option (\<lambda>a u. get_task h a = Some u) (ih d) (ip d)"
    by (simp add: idx_rel_def)
  then show "rel_option (\<lambda>a u. get_task h' a = Some u) (ih d) (ip d)"
    by (rule option.rel_mono_strong) (rule same_but_get_task [OF assms(1,2)])
qed

lemma same_but_step:
  assumes "get_arr h res = Some refs"
  shows "same_but res h ((h @ [ob])[res := ArrObj rs])"
proof -
  from assms have "res < length h" by (auto simp: get_arr_def split: if_splits)
  then show ?thesis by (auto simp: same_but_def nth_append)
qed

lemma blocked_h_blocked:
  "idx_rel h ih ip \<Longrightarrow> blocked_h h ih (deps t) = Some (blocked ip t)"
  by (simp add: blocked_h_correct blocked_def)

lemma pass_h_correct:
  assumes "get_arr h res = Some refs" "read_tasks h refs = Some cur" "idx_rel h ih ip"
    "i \<le> length refs"
  shows "\<exists>h' refs'. pass_h ih res i h ch = Some (h', ch \<or> list_ex (needs_skip ip) (drop i cur)) \<and>
           get_arr h' res = Some refs' \<and>
           read_tasks h' refs' = Some (take i cur @ map (skip_step ip) (drop i cur)) \<and>
           same_but res h h'"
  using assms
proof (induction "length refs - i" arbitrary: i h refs cur ch)
  case 0
  from "0.prems"(2) have len: "length cur = length refs" by (simp add: read_tasks_iff)
  from 0 have i: "i = length refs" by simp
  with "0.prems"(1) have "pass_h ih res i h ch = Some (h, ch)"
    by (subst pass_h.simps) simp
  with i len "0.prems"(1,2) same_but_refl [of res h] show ?case by simp
next
  case (Suc n)
  note arr = \<open>get_arr h res = Some refs\<close> and rd = \<open>read_tasks h refs = Some cur\<close>
    and rel = \<open>idx_rel h ih ip\<close>
  from Suc.hyps(2) have i: "i < length refs" by simp
  from rd have len: "length cur = length refs"
    and el: "\<forall>k < length refs. get_task h (refs ! k) = Some (cur ! k)"
    by (simp_all add: read_tasks_iff)
  let ?t = "cur ! i"
  from el i have gt: "get_task h (refs ! i) = Some ?t" by simp
  from i len have dr: "drop i cur = ?t # drop (Suc i) cur"
    by (simp add: Cons_nth_drop_Suc)
  from i len have tk: "take (Suc i) cur = take i cur @ [?t]"
    by (simp add: take_Suc_conv_app_nth)
  note bl = blocked_h_blocked [OF rel, of ?t]
  show ?case
  proof (cases "needs_skip ip ?t")
    case False
    then have st: "skip_step ip ?t = ?t" by (auto simp: skip_step_def needs_skip_def)
    from False arr i gt bl have un: "pass_h ih res i h ch = pass_h ih res (Suc i) h ch"
      by (subst pass_h.simps) (auto simp: needs_skip_def)
    from Suc.hyps(2) i have n: "n = length refs - Suc i" "Suc i \<le> length refs" by simp_all
    from Suc.hyps(1) [OF n(1) arr rd rel n(2), of ch] obtain h' refs' where
      r: "pass_h ih res (Suc i) h ch = Some (h', ch \<or> list_ex (needs_skip ip) (drop (Suc i) cur))"
      "get_arr h' res = Some refs'"
      "read_tasks h' refs' = Some (take (Suc i) cur @ map (skip_step ip) (drop (Suc i) cur))"
      "same_but res h h'" by blast
    from r(1) un False dr
    have "pass_h ih res i h ch = Some (h', ch \<or> list_ex (needs_skip ip) (drop i cur))" by simp
    moreover from r(3) tk dr st
    have "read_tasks h' refs' = Some (take i cur @ map (skip_step ip) (drop i cur))" by simp
    ultimately show ?thesis using r(2,4) by blast
  next
    case True
    let ?t' = "?t\<lparr>task_status := Skipped, summary := skip_note\<rparr>"
    let ?refs2 = "refs[i := length h]"
    let ?h2 = "(h @ [TaskObj ?t'])[res := ArrObj ?refs2]"
    let ?cur2 = "cur[i := ?t']"
    from True have st: "skip_step ip ?t = ?t'" by (simp add: skip_step_def needs_skip_def)
    from True arr i gt bl have un: "pass_h ih res i h ch = pass_h ih res (Suc i) ?h2 True"
      by (subst pass_h.simps) (auto simp: needs_skip_def alloc_def)
    from arr have rl: "res < length h" by (auto simp: get_arr_def split: if_splits)
    then have arr2: "get_arr ?h2 res = Some ?refs2" by (simp add: get_arr_write)
    have sb: "same_but res h ?h2" by (rule same_but_step [OF arr])
    have rd2: "read_tasks ?h2 ?refs2 = Some ?cur2"
      unfolding read_tasks_iff
    proof (intro conjI allI impI)
      show "length ?cur2 = length ?refs2" using len by simp
    next
      fix k assume k: "k < length ?refs2"
      show "get_task ?h2 (?refs2 ! k) = Some (?cur2 ! k)"
      proof (cases "k = i")
        case True
        with i len rl show ?thesis by (simp add: get_task_def)
      next
        case False
        from k el have "get_task h (refs ! k) = Some (cur ! k)" by simp
        from same_but_get_task [OF sb arr this] False show ?thesis by simp
      qed
    qed
    have rel2: "idx_rel ?h2 ih ip" by (rule same_but_idx_rel [OF sb arr rel])
    from Suc.hyps(2) i have n: "n = length ?refs2 - Suc i" "Suc i \<le> length ?refs2" by simp_all
    from Suc.hyps(1) [OF n(1) arr2 rd2 rel2 n(2), of True] obtain h' refs' where
      r: "pass_h ih res (Suc i) ?h2 True = Some (h', True \<or> list_ex (needs_skip ip) (drop (Suc i) ?cur2))"
      "get_arr h' res = Some refs'"
      "read_tasks h' refs' = Some (take (Suc i) ?cur2 @ map (skip_step ip) (drop (Suc i) ?cur2))"
      "same_but res ?h2 h'" by blast
    from r(1) un True dr
    have "pass_h ih res i h ch = Some (h', ch \<or> list_ex (needs_skip ip) (drop i cur))" by simp
    moreover have "take (Suc i) ?cur2 = take i cur @ [?t']"
      using i len by (simp add: take_Suc_conv_app_nth)
    with r(3) dr st
    have "read_tasks h' refs' = Some (take i cur @ map (skip_step ip) (drop i cur))" by simp
    moreover from same_but_trans [OF sb r(4)] have "same_but res h h'" .
    ultimately show ?thesis using r(2) by blast
  qed
qed

lemma loop_h_correct:
  assumes "get_arr h res = Some refs" "read_tasks h refs = Some ts"
  shows "\<exists>h' refs'. loop_h res h = Some h' \<and> get_arr h' res = Some refs' \<and>
           read_tasks h' refs' = Some (cascade_loop ts) \<and> same_but res h h'"
  using assms
proof (induction ts arbitrary: h refs rule: cascade_loop.induct)
  case (1 result)
  note arr = \<open>get_arr h res = Some refs\<close> and rd = \<open>read_tasks h refs = Some result\<close>
  from buildIndex_h_correct [OF rd] obtain ih where
    ih: "buildIndex_h h refs Map.empty = Some ih" "idx_rel h ih (buildIndex result)" by blast
  from pass_h_correct [OF arr rd ih(2), of 0 False] obtain h1 refs1 where
    p: "pass_h ih res 0 h False = Some (h1, list_ex (needs_skip (buildIndex result)) result)"
    "get_arr h1 res = Some refs1"
    "read_tasks h1 refs1 = Some (map (skip_step (buildIndex result)) result)"
    "same_but res h h1" by auto
  show ?case
  proof (cases "list_ex (needs_skip (buildIndex result)) result")
    case True
    have sp: "(map (skip_step (buildIndex result)) result, True)
                = skip_pass (buildIndex result) result False"
      using True by (simp add: skip_pass_eq)
    from "1.IH" [OF sp TrueI p(2,3)] obtain h' refs' where
      r: "loop_h res h1 = Some h'" "get_arr h' res = Some refs'"
      "read_tasks h' refs' = Some (cascade_loop (map (skip_step (buildIndex result)) result))"
      "same_but res h1 h'"
      by blast
    from arr ih(1) p(1) True r(1) have "loop_h res h = Some h'"
      by (subst loop_h.simps) simp
    moreover from True r(3) have "read_tasks h' refs' = Some (cascade_loop result)"
      by (subst cascade_loop_unfold) simp
    moreover from same_but_trans [OF p(4) r(4)] have "same_but res h h'" .
    ultimately show ?thesis using r(2) by blast
  next
    case False
    from arr ih(1) p(1) False have "loop_h res h = Some h1"
      by (subst loop_h.simps) simp
    moreover from False p(3) have "read_tasks h1 refs1 = Some (cascade_loop result)"
      by (subst cascade_loop_unfold) (simp add: skip_step_id)
    ultimately show ?thesis using p(2,4) by blast
  qed
qed

lemma cascadeSkip_h_correct:
  assumes "read_array h arr = Some ts"
  shows "\<exists>h' res. cascadeSkip_h h arr = Some (h', res) \<and> take (length h) h' = h \<and>
           read_array h' arr = Some ts \<and> read_array h' res = Some (cascadeSkip ts)"
proof -
  from assms obtain refs where a: "get_arr h arr = Some refs" "read_tasks h refs = Some ts"
    by (auto simp: read_array_def split: option.splits)
  from map_refs_correct [OF a(2), of "\<lambda>t. Some t"] obtain refs' ext where
    m: "map_refs (\<lambda>t. Some t) refs h = Some (refs', h @ ext)"
    "read_tasks (h @ ext) refs' = Some (map (apply_cb (\<lambda>t. Some t)) ts)" by blast
  have "map (apply_cb (\<lambda>t. Some t)) ts = map (\<lambda>t. t) ts"
    by (induction ts) (simp_all add: apply_cb_def)
  with m(2) have rd: "read_tasks (h @ ext) refs' = Some (map (\<lambda>t. t) ts)" by simp
  let ?res = "length (h @ ext)"
  let ?h2 = "(h @ ext) @ [ArrObj refs']"
  have arr2: "get_arr ?h2 ?res = Some refs'" by (simp add: get_arr_def)
  from read_tasks_append [OF rd] have rd2: "read_tasks ?h2 refs' = Some (map (\<lambda>t. t) ts)" .
  from loop_h_correct [OF arr2 rd2] obtain h' refs3 where
    l: "loop_h ?res ?h2 = Some h'" "get_arr h' ?res = Some refs3"
    "read_tasks h' refs3 = Some (cascade_loop (map (\<lambda>t. t) ts))" "same_but ?res ?h2 h'" by blast
  from a(1) m(1) l(1) have "cascadeSkip_h h arr = Some (h', ?res)"
    by (simp add: cascadeSkip_h_def alloc_def)
  moreover from l(4) have fr: "take (length h) h' = h"
    by (intro nth_equalityI) (auto simp: same_but_def nth_append)
  moreover have "read_array h' arr = Some ts"
  proof -
    from fr obtain rest where "h' = h @ rest"
      by (metis append_take_drop_id)
    with read_array_append [OF assms] show ?thesis by simp
  qed
  moreover from l(2,3) have "read_array h' ?res = Some (cascadeSkip ts)"
    by (simp add: read_array_def cascadeSkip_def)
  ultimately show ?thesis by blast
qed

lemmas heap_eval = cascadeSkip_h_def loop_h.simps pass_h.simps get_arr_def get_task_def get_prog_def
  alloc_def read_array_def

text \<open>
  Claim C2, as amended.  For every task sequence, \<open>cascadeSkip\<close> returns a sequence of
  the same length in which exactly those tasks are changed that were pending and
  whose dependency set reaches a failed or skipped task through a chain of
  dependencies whose intermediate tasks are all pending (the tasks skipped during the
  same fixpoint computation).  Each such task gets status skipped and the fixed
  annotation as summary; every task that is not pending (active, done, failed or
  skipped) is returned unchanged.  On the store, the call writes only to the array
  it has created: every object that existed before is unchanged, the input array
  reads as before, and the returned array reads as the result on values.
\<close>

theorem cascadeSkip_spec:
  "length (cascadeSkip ts) = length ts \<and>
   (\<forall>k < length ts.
      (task_status (ts ! k) = Pending \<and> reaches_via_pending ts (ts ! k) \<longrightarrow>
         cascadeSkip ts ! k = (ts ! k)\<lparr>task_status := Skipped, summary := skip_note\<rparr>) \<and>
      (cascadeSkip ts ! k \<noteq> ts ! k \<longleftrightarrow>
         task_status (ts ! k) = Pending \<and> reaches_via_pending ts (ts ! k)) \<and>
      (task_status (ts ! k) \<noteq> Pending \<longrightarrow> cascadeSkip ts ! k = ts ! k)) \<and>
   (\<forall>h arr. read_array h arr = Some ts \<longrightarrow>
      (\<exists>h' res. cascadeSkip_h h arr = Some (h', res) \<and> take (length h) h' = h \<and>
          read_array h' arr = Some ts \<and> read_array h' res = Some (cascadeSkip ts)))"
proof -
  have "\<forall>h arr. read_array h arr = Some ts \<longrightarrow>
      (\<exists>h' res. cascadeSkip_h h arr = Some (h', res) \<and> take (length h) h' = h \<and>
          read_array h' arr = Some ts \<and> read_array h' res = Some (cascadeSkip ts))"
    using cascadeSkip_h_correct by blast
  with cascade_changes [of ts] show ?thesis by (elim conjE) (intro conjI; assumption)
qed

theorem cascadeSkip_spec_witness:
  "2 < length [tk id1 Failed [], tk id2 Pending [id1], tk id3 Pending [id2], tk id4 Done [id1]] \<and>
   task_status ([tk id1 Failed [], tk id2 Pending [id1], tk id3 Pending [id2], tk id4 Done [id1]] ! 2)
     = Pending \<and>
   reaches_via_pending [tk id1 Failed [], tk id2 Pending [id1], tk id3 Pending [id2], tk id4 Done [id1]]
     ([tk id1 Failed [], tk id2 Pending [id1], tk id3 Pending [id2], tk id4 Done [id1]] ! 2) \<and>
   cascadeSkip [tk id1 Failed [], tk id2 Pending [id1], tk id3 Pending [id2], tk id4 Done [id1]] ! 2
     = (tk id3 Skipped [id2])\<lparr>summary := skip_note\<rparr> \<and>
   cascadeSkip [tk id1 Failed [], tk id2 Pending [id1], tk id3 Pending [id2], tk id4 Done [id1]] ! 3
     = tk id4 Done [id1] \<and>
   read_array [TaskObj (tk id1 Failed []), TaskObj (tk id2 Pending [id1]),
               TaskObj (tk id3 Pending [id2]), TaskObj (tk id4 Done [id1]), ArrObj [0, 1, 2, 3]] 4
     = Some [tk id1 Failed [], tk id2 Pending [id1], tk id3 Pending [id2], tk id4 Done [id1]] \<and>
   cascadeSkip_h [TaskObj (tk id1 Failed []), TaskObj (tk id2 Pending [id1]),
                  TaskObj (tk id3 Pending [id2]), TaskObj (tk id4 Done [id1]), ArrObj [0, 1, 2, 3]] 4
     = Some ([TaskObj (tk id1 Failed []), TaskObj (tk id2 Pending [id1]),
              TaskObj (tk id3 Pending [id2]), TaskObj (tk id4 Done [id1]), ArrObj [0, 1, 2, 3],
              TaskObj (tk id1 Failed []), TaskObj (tk id2 Pending [id1]),
              TaskObj (tk id3 Pending [id2]), TaskObj (tk id4 Done [id1]), ArrObj [5, 10, 11, 8],
              TaskObj ((tk id2 Skipped [id1])\<lparr>summary := skip_note\<rparr>),
              TaskObj ((tk id3 Skipped [id2])\<lparr>summary := skip_note\<rparr>)], 9)"
proof -
  let ?ts = "[tk id1 Failed [], tk id2 Pending [id1], tk id3 Pending [id2], tk id4 Done [id1]]"
  let ?h = "[TaskObj (tk id1 Failed []), TaskObj (tk id2 Pending [id1]),
             TaskObj (tk id3 Pending [id2]), TaskObj (tk id4 Done [id1]), ArrObj [0, 1, 2, 3]]"
  have 1: "reaches_via_pending ?ts (tk id2 Pending [id1])"
    by (rule reaches_via_pending.hit [of id1 _ _ "tk id1 Failed []"]) (simp_all add: buildIndex_def)
  have 2: "reaches_via_pending ?ts (tk id3 Pending [id2])"
    by (rule reaches_via_pending.hop [of id2 _ _ "tk id2 Pending [id1]"])
       (simp_all add: buildIndex_def 1)
  have 3: "read_array ?h 4 = Some ?ts" by (simp add: heap_eval)
  have 4: "cascadeSkip_h ?h 4
     = Some (?h @ [TaskObj (tk id1 Failed []), TaskObj (tk id2 Pending [id1]),
              TaskObj (tk id3 Pending [id2]), TaskObj (tk id4 Done [id1]), ArrObj [5, 10, 11, 8],
              TaskObj ((tk id2 Skipped [id1])\<lparr>summary := skip_note\<rparr>),
              TaskObj ((tk id3 Skipped [id2])\<lparr>summary := skip_note\<rparr>)], 9)"
    by (simp add: heap_eval)
  note s = cascadeSkip_spec [of ?ts, THEN conjunct2, THEN conjunct1, THEN spec, THEN mp]
  note t = cascadeSkip_spec [of ?ts, THEN conjunct2, THEN conjunct2, THEN spec, THEN spec, THEN mp,
             OF 3]
  from 2 3 4 s [of 2] s [of 3] t show ?thesis by simp
qed

text \<open>
  Claim C2 as stated fails when the chain passes through a task that is not pending.
  Task 003 is pending and depends on 002, which is done and depends on the failed
  001: the dependency set of 003 transitively reaches a failed task, yet
  \<open>cascadeSkip\<close> returns 003 unchanged, because the only dependency it looks at,
  002, is done.
\<close>

theorem cascadeSkip_done_between:
  "task_status ([tk id1 Failed [], tk id2 Done [id1], tk id3 Pending [id2]] ! 2) = Pending \<and>
   reaches [tk id1 Failed [], tk id2 Done [id1], tk id3 Pending [id2]]
     ([tk id1 Failed [], tk id2 Done [id1], tk id3 Pending [id2]] ! 2) \<and>
   cascadeSkip [tk id1 Failed [], tk id2 Done [id1], tk id3 Pending [id2]] ! 2
     = [tk id1 Failed [], tk id2 Done [id1], tk id3 Pending [id2]] ! 2"
proof -
  let ?ts = "[tk id1 Failed [], tk id2 Done [id1], tk id3 Pending [id2]]"
  have 1: "reaches ?ts (tk id2 Done [id1])"
    by (rule reaches.hit [of id1 _ _ "tk id1 Failed []"]) (simp_all add: buildIndex_def)
  have 2: "reaches ?ts (tk id3 Pending [id2])"
    by (rule reaches.hop [of id2 _ _ "tk id2 Done [id1]"]) (simp_all add: buildIndex_def 1)
  have 3: "cascadeSkip ?ts = ?ts" by (simp add: eval_defs)
  from 2 3 show ?thesis by simp
qed

end
